theory Spec2Isabelle
  imports Main "HOL-Library.Word"
begin

section \<open>Combinatorics utilities (PatternDatabases/math.cpp)\<close>

type_synonym uint32_t = "32 word"

text \<open>
  \<^verbatim>\<open>uint32_t factorial(uint32_t n) { return n<=1 ? 1 : n * factorial(n-1); }\<close>
  The multiplication wraps modulo \<open>2 ^ 32\<close>, as \<open>*\<close> on \<open>32 word\<close> does. The recursion
  ends because \<open>n - 1\<close> does not wrap when \<open>1 < n\<close>.
\<close>

function factorial :: "uint32_t \<Rightarrow> uint32_t" where
  "factorial n = (if n \<le> 1 then 1 else n * factorial (n - 1))"
  by pat_completeness auto
termination
proof (relation "measure unat")
  show "wf (measure (unat :: uint32_t \<Rightarrow> nat))" by simp
next
  fix n :: uint32_t
  assume "\<not> n \<le> 1"
  then have "n \<noteq> 0" by auto
  then show "(n - 1, n) \<in> measure unat" by (simp add: measure_unat)
qed

declare factorial.simps [simp del]

text \<open>
  \<^verbatim>\<open>uint32_t pick(uint32_t n, uint32_t k) { return factorial(n) / factorial(n-k); }\<close>
  \<open>n - k\<close> is unsigned and wraps when \<open>n < k\<close>. An unsigned division by zero has no
  value in C++ (it traps on the usual targets); the model returns \<open>None\<close> for it.
\<close>

definition pick :: "uint32_t \<Rightarrow> uint32_t \<Rightarrow> uint32_t option" where
  "pick n k = (if factorial (n - k) = 0 then None else Some (factorial n div factorial (n - k)))"

text \<open>
  \<^verbatim>\<open>uint32_t choose(uint32_t n, uint32_t k) {
    return (n<k) ? 0 : factorial(n) / (factorial(n-k) * factorial(k)); }\<close>
  The name \<open>choose\<close> is taken by the binomial coefficient of HOL, hence the suffix.
\<close>

definition choose_u32 :: "uint32_t \<Rightarrow> uint32_t \<Rightarrow> uint32_t option" where
  "choose_u32 n k = (if n < k then Some 0
     else if factorial (n - k) * factorial k = 0 then None
     else Some (factorial n div (factorial (n - k) * factorial k)))"

subsection \<open>Facts about the 32-bit factorial\<close>

lemma factorial_of_fact: "factorial n = of_nat (fact (unat n))"
proof (induction n rule: factorial.induct)
  case (1 n)
  show ?case
  proof (cases "n \<le> 1")
    case True
    then have "unat n \<le> 1" by (simp add: word_le_nat_alt)
    then have "unat n = 0 \<or> unat n = 1" by arith
    then have "fact (unat n) = (1::nat)" by auto
    with True show ?thesis by (simp add: factorial.simps)
  next
    case False
    then have n0: "n \<noteq> 0" by auto
    have "factorial n = n * factorial (n - 1)"
      using False by (simp add: factorial.simps)
    also have "\<dots> = n * of_nat (fact (unat (n - 1)))"
      using 1 False by simp
    also have "\<dots> = of_nat (unat n * fact (unat n - 1))"
      using n0 by (simp add: unat_minus_one)
    also have "unat n * fact (unat n - 1) = fact (unat n)"
      using n0 fact_reduce [where ?'a = nat, of "unat n"] by (simp add: unat_gt_0)
    finally show ?thesis .
  qed
qed

lemma word_of_nat_unat: "word_of_nat (unat (w :: 'a::len word)) = w"
  by simp

lemma fact_12: "fact 12 = (479001600::nat)"
  by (simp add: fact_numeral)

lemma fact_34_dvd: "(2::nat) ^ 32 dvd fact 34"
  by (simp add: fact_numeral)

lemma fact_le_12: "m \<le> 12 \<Longrightarrow> fact m < (2::nat) ^ 32"
proof -
  assume "m \<le> 12"
  then have "fact m \<le> (fact 12 :: nat)" by (rule fact_mono)
  then show ?thesis by (simp add: fact_12)
qed

lemma fact_small_iff: "fact m < (2::nat) ^ 32 \<longleftrightarrow> m \<le> 12"
proof
  assume h: "fact m < (2::nat) ^ 32"
  show "m \<le> 12"
  proof (rule ccontr)
    assume "\<not> m \<le> 12"
    then have "13 \<le> m" by simp
    then have "fact 13 \<le> (fact m :: nat)" by (rule fact_mono)
    with h show False by (simp add: fact_numeral)
  qed
qed (rule fact_le_12)

lemma unat_factorial: "unat n \<le> 12 \<Longrightarrow> unat (factorial n) = fact (unat n)"
  using fact_le_12 [of "unat n"]
  by (simp add: factorial_of_fact unat_of_nat)

lemma factorial_zero: "34 \<le> unat n \<Longrightarrow> factorial n = 0"
proof -
  assume "34 \<le> unat n"
  then have "(fact 34 :: nat) dvd fact (unat n)" by (rule fact_dvd)
  with fact_34_dvd have "(2::nat) ^ 32 dvd fact (unat n)" by (rule dvd_trans)
  then show ?thesis by (simp add: factorial_of_fact word_of_nat_eq_0_iff)
qed

lemma factorial_nonzero: "unat n \<le> 12 \<Longrightarrow> factorial n \<noteq> 0"
proof
  assume "unat n \<le> 12" "factorial n = 0"
  then have "fact (unat n) = (0::nat)" using unat_factorial [of n] by simp
  then show False by simp
qed

lemma pick_ref:
  assumes "k \<le> n" "unat n \<le> 12"
  shows "pick n k = Some (of_nat (fact (unat n) div fact (unat n - unat k)))"
proof -
  have nk: "unat (n - k) = unat n - unat k" using assms(1) by (simp add: unat_sub)
  then have le: "unat (n - k) \<le> 12" using assms(2) by simp
  have "unat (factorial n div factorial (n - k)) = fact (unat n) div fact (unat n - unat k)"
    using assms(2) le nk by (simp add: unat_div unat_factorial)
  then have "factorial n div factorial (n - k) = of_nat (fact (unat n) div fact (unat n - unat k))"
    by (metis word_of_nat_unat)
  with factorial_nonzero [OF le] show ?thesis by (simp add: pick_def)
qed

lemma choose_ref:
  assumes "k \<le> n" "unat n \<le> 12"
  shows "choose_u32 n k = Some (of_nat (unat n choose unat k))"
proof -
  have kn: "unat k \<le> unat n" using assms(1) by (simp add: word_le_nat_alt)
  have nk: "unat (n - k) = unat n - unat k" using assms(1) by (simp add: unat_sub)
  then have le: "unat (n - k) \<le> 12" using assms(2) by simp
  have lek: "unat k \<le> 12" using kn assms(2) by simp
  have prod: "fact (unat n - unat k) * fact (unat k) * (unat n choose unat k) = (fact (unat n) :: nat)"
    using binomial_fact_lemma [OF kn] by (simp add: mult.commute mult.left_commute)
  have pos: "0 < (fact (unat n - unat k) * fact (unat k) :: nat)" by simp
  have "(fact (unat n - unat k) * fact (unat k) :: nat) \<le> fact (unat n)"
  proof -
    have "0 < unat n choose unat k" using kn by (simp add: zero_less_binomial)
    then have "(fact (unat n - unat k) * fact (unat k) :: nat) * 1 \<le> fact (unat n - unat k) * fact (unat k) * (unat n choose unat k)"
      by (intro mult_le_mono2) (simp add: Suc_le_eq)
    then show ?thesis using prod by simp
  qed
  then have small: "(fact (unat n - unat k) * fact (unat k) :: nat) < 2 ^ 32"
    using fact_le_12 [OF assms(2)] by simp
  have u: "unat (factorial (n - k) * factorial k) = fact (unat n - unat k) * fact (unat k)"
    using small le lek nk by (simp add: unat_word_ariths unat_factorial)
  have nz: "factorial (n - k) * factorial k \<noteq> 0"
  proof
    assume "factorial (n - k) * factorial k = 0"
    then have "unat (factorial (n - k) * factorial k) = 0" by simp
    with u pos show False by simp
  qed
  have "unat (factorial n div (factorial (n - k) * factorial k)) = fact (unat n) div (fact (unat n - unat k) * fact (unat k))"
    using assms(2) u by (simp add: unat_div unat_factorial)
  also have "\<dots> = unat n choose unat k"
    using pos by (simp add: prod [symmetric] del: mult_pos_pos)
  finally have "factorial n div (factorial (n - k) * factorial k) = of_nat (unat n choose unat k)"
    by (metis word_of_nat_unat)
  with nz assms(1) show ?thesis by (simp add: choose_u32_def not_less [symmetric])
qed

subsection \<open>Claims about the combinatorics utilities\<close>

text \<open>
  C9. The utilities agree with their reference definitions on the documented domain:
  \<open>factorial 0 = 1\<close>, \<open>pick 5 2 = 20\<close>, \<open>choose 5 2 = 10\<close>, \<open>choose 3 5 = 0\<close>, and
  \<open>choose n k = 0\<close> whenever \<open>n < k\<close>. For \<open>n \<le> 12\<close> (the largest argument whose factorial
  fits 32 bits) \<open>factorial n\<close> is the mathematical factorial, and for \<open>k \<le> n \<le> 12\<close>
  \<open>pick n k\<close> is \<open>n! / (n-k)!\<close> and \<open>choose n k\<close> is the binomial coefficient; none of these
  divisions is by zero.
\<close>

theorem combinatorics_reference:
  "factorial 0 = 1 \<and> pick 5 2 = Some 20 \<and> choose_u32 5 2 = Some 10 \<and> choose_u32 3 5 = Some 0
   \<and> (n < k \<longrightarrow> choose_u32 n k = Some 0)
   \<and> (unat m \<le> 12 \<longrightarrow> unat (factorial m) = fact (unat m))
   \<and> (j \<le> m \<and> unat m \<le> 12 \<longrightarrow>
        pick m j = Some (of_nat (fact (unat m) div fact (unat m - unat j))))
   \<and> (j \<le> m \<and> unat m \<le> 12 \<longrightarrow> choose_u32 m j = Some (of_nat (unat m choose unat j)))"
proof -
  have "factorial 0 = 1" by (simp add: factorial.simps)
  moreover have "pick 5 2 = Some 20" by code_simp
  moreover have "choose_u32 5 2 = Some 10" by code_simp
  moreover have "choose_u32 3 5 = Some 0" by (simp add: choose_u32_def)
  moreover have "n < k \<longrightarrow> choose_u32 n k = Some 0" by (simp add: choose_u32_def)
  ultimately show ?thesis
    using unat_factorial [of m] pick_ref [of j m] choose_ref [of j m] by blast
qed

theorem combinatorics_reference_witness:
  "(3::uint32_t) < 5 \<and> choose_u32 3 5 = Some 0 \<and> unat (12::uint32_t) \<le> 12
   \<and> unat (factorial 12) = 479001600
   \<and> (4::uint32_t) \<le> 12 \<and> pick 12 4 = Some 11880 \<and> choose_u32 12 4 = Some 495"
proof -
  have u12: "unat (12::uint32_t) = 12" and u4: "unat (4::uint32_t) = 4" by simp_all
  have b: "(12::nat) choose 4 = 495" by (simp add: binomial_fact' fact_numeral)
  have h1: "(3::uint32_t) < 5" and h2: "(4::uint32_t) \<le> 12" by simp_all
  from combinatorics_reference [where n = 3 and k = 5 and m = 12 and j = 4] h1 h2
  have "choose_u32 3 5 = Some 0" and "unat (factorial 12) = fact 12"
    and "pick 12 4 = Some (of_nat (fact 12 div fact (12 - 4)))"
    and "choose_u32 12 4 = Some (of_nat (12 choose 4))"
    by (simp_all only: u12 u4 order_refl simp_thms)
  then show ?thesis using h1 h2 by (simp add: b u12 fact_numeral)
qed

text \<open>
  C10. \<open>pick\<close> has no \<open>n < k\<close> guard, unlike \<open>choose\<close>. When \<open>k \<le> n\<close> and \<open>n!\<close> fits 32 bits
  the divisor \<open>factorial (n - k)\<close> is not zero and the division is safe. When \<open>n < k\<close> the
  subtraction wraps; whenever the wrapped value is at least 34 its 32-bit factorial is 0
  (\<open>2 ^ 32\<close> divides \<open>34!\<close>) and \<open>pick\<close> divides by zero, as at \<open>pick 0 1\<close>, while \<open>choose\<close>
  returns 0 there.
\<close>

theorem pick_requires_k_le_n:
  "(k \<le> n \<and> fact (unat n) < (2::nat) ^ 32 \<longrightarrow> factorial (n - k) \<noteq> 0 \<and> pick n k \<noteq> None)
   \<and> (m < j \<and> 34 \<le> unat (m - j) \<longrightarrow> factorial (m - j) = 0 \<and> pick m j = None)
   \<and> (m < j \<longrightarrow> choose_u32 m j = Some 0)
   \<and> (0::uint32_t) < 1 \<and> factorial (0 - 1) = 0 \<and> pick 0 1 = None"
proof -
  have a: "k \<le> n \<and> fact (unat n) < (2::nat) ^ 32 \<longrightarrow> factorial (n - k) \<noteq> 0 \<and> pick n k \<noteq> None"
  proof
    assume h: "k \<le> n \<and> fact (unat n) < (2::nat) ^ 32"
    then have "unat n \<le> 12" using fact_small_iff [of "unat n"] by simp
    moreover have "unat (n - k) = unat n - unat k" using h by (simp add: unat_sub)
    ultimately have "unat (n - k) \<le> 12" by simp
    then have "factorial (n - k) \<noteq> 0" by (rule factorial_nonzero)
    then show "factorial (n - k) \<noteq> 0 \<and> pick n k \<noteq> None" by (simp add: pick_def)
  qed
  have b: "m < j \<and> 34 \<le> unat (m - j) \<longrightarrow> factorial (m - j) = 0 \<and> pick m j = None"
    by (simp add: factorial_zero pick_def)
  have c: "m < j \<longrightarrow> choose_u32 m j = Some 0" by (simp add: choose_u32_def)
  have "(34::nat) \<le> unat (0 - 1 :: uint32_t)"
    by (simp add: unsigned_minus_1_eq_mask mask_eq_exp_minus_1)
  then have d: "factorial (0 - 1) = 0" by (rule factorial_zero)
  then have e: "pick 0 1 = None" by (simp add: pick_def)
  from a b c d e show ?thesis by simp
qed

theorem pick_requires_k_le_n_witness:
  "(2::uint32_t) \<le> 5 \<and> fact (unat (5::uint32_t)) < (2::nat) ^ 32 \<and> factorial (5 - 2) \<noteq> 0
   \<and> pick 5 2 \<noteq> None
   \<and> (2::uint32_t) < 5 \<and> 34 \<le> unat (2 - 5 :: uint32_t) \<and> factorial (2 - 5) = 0 \<and> pick 2 5 = None
   \<and> choose_u32 2 5 = Some 0"
  using pick_requires_k_le_n [where n = 5 and k = 2 and m = 2 and j = 5]
  by (simp add: fact_numeral)

section \<open>IDA* solver (Solver/IDAstarSolver.h)\<close>

subsection \<open>The cube interface and the search node\<close>

text \<open>
  The solver is a class template over the cube type \<open>T\<close>; the header
  \<^verbatim>\<open>../Model/RubiksCube.h\<close> that declares the cubes is not among the sources.
  The three members of \<open>T\<close> the solver calls are therefore parameters of the model:
  \<^verbatim>\<open>cube.move(m)\<close>, \<^verbatim>\<open>cube.invert(m)\<close> and \<^verbatim>\<open>cube.isSolved()\<close>. Equality of cubes
  (\<^verbatim>\<open>operator==\<close>, and the hash \<open>H\<close> consistent with it) is equality of HOL.
  \<^verbatim>\<open>RubiksCube::MOVE(i)\<close> converts the loop index \<open>i = 0, \<dots>, 17\<close> to the enumeration, so a
  move is modelled by its index.
\<close>

type_synonym MOVE = nat

record 'c cube_ops =
  move :: "'c \<Rightarrow> MOVE \<Rightarrow> 'c"
  invert :: "'c \<Rightarrow> MOVE \<Rightarrow> 'c"
  isSolved :: "'c \<Rightarrow> bool"

text \<open>
  \<^verbatim>\<open>struct Node { T cube; int depth; int estimate; }\<close>. The two counters are \<open>int\<close>:
  \<open>depth\<close> never exceeds the bound by more than one and the bounds stay at or below 100, far
  from the range where a C++ \<open>int\<close> wraps.
\<close>

record 'c Node =
  cube :: 'c
  depth :: int
  estimate :: int

definition cost :: "'c Node \<Rightarrow> int" where
  "cost n = depth n + estimate n"

text \<open>
  \<^verbatim>\<open>struct compareCube\<close>: the comparator of the priority queue, on pairs of a node and the
  index of the move that produced it.
\<close>

definition compareCube :: "'c Node \<times> nat \<Rightarrow> 'c Node \<times> nat \<Rightarrow> bool" where
  "compareCube p1 p2 =
     (let n1 = fst p1; n2 = fst p2 in
      if depth n1 + estimate n1 = depth n2 + estimate n2
      then estimate n1 > estimate n2
      else depth n1 + estimate n1 > depth n2 + estimate n2)"

subsection \<open>The frontier\<close>

text \<open>
  The frontier is a \<^verbatim>\<open>std::priority_queue\<close> ordered by \<open>compareCube\<close>. Its \<^verbatim>\<open>top()\<close> is an
  element that the comparator puts below no other element; which one it is among several
  such elements depends on the heap layout of the library and is left open by the standard.
  The model keeps the elements in a list in insertion order and takes the first such
  element, which need not be the one a given library's heap serves. What depends on the
  order among nodes of equal priority (the move index recorded for a state that several
  moves reach, the order of expansion within one cost) is therefore the model's own and is
  stated by no theorem below; what the theorems state holds for the cost of the served
  node, for the set of states a drained frontier expands, and for outcomes that every such
  order gives. The source's first insertion is written \<^verbatim>\<open>pq.push_back(\<dots>)\<close>, which a
  priority queue does not have; it is read as \<^verbatim>\<open>pq.push(\<dots>)\<close>.
\<close>

primrec top_from :: "'c Node \<times> nat \<Rightarrow> ('c Node \<times> nat) list \<Rightarrow> 'c Node \<times> nat" where
  "top_from b [] = b"
| "top_from b (x # xs) = top_from (if compareCube b x then x else b) xs"

definition pq_top :: "('c Node \<times> nat) list \<Rightarrow> 'c Node \<times> nat" where
  "pq_top q = top_from (hd q) (tl q)"

definition pq_pop :: "('c Node \<times> nat) list \<Rightarrow> ('c Node \<times> nat) list" where
  "pq_pop q = remove1 (pq_top q) q"

definition pq_push :: "'c Node \<times> nat \<Rightarrow> ('c Node \<times> nat) list \<Rightarrow> ('c Node \<times> nat) list" where
  "pq_push x q = q @ [x]"

subsection \<open>The solver object\<close>

text \<open>
  Modelled from the spec: the class \<^verbatim>\<open>CornerPatternDatabase\<close> of the member \<open>cornerDB\<close>
  is declared in a file that is not among the sources. The spec gives the heuristic provider
  as \<open>estimate(state) -> integer \<ge> 0\<close>, so a pattern database is a function from cubes to
  integers.
\<close>

type_synonym 'c CornerPatternDatabase = "'c \<Rightarrow> int"

text \<open>
  The data members of \<^verbatim>\<open>IDAstarSolver\<close>. \<open>move_done\<close> and \<open>visited\<close> are
  \<^verbatim>\<open>unordered_map\<close>s, modelled as maps. Reading them with \<^verbatim>\<open>operator[]\<close> inserts a
  value-initialised entry (\<open>false\<close>, \<open>MOVE(0)\<close>) for a missing key and returns it.
\<close>

record 'c solver =
  cornerDB :: "'c CornerPatternDatabase"
  moves :: "MOVE list"
  move_done :: "'c \<rightharpoonup> MOVE"
  visited :: "'c \<rightharpoonup> bool"
  rubiksCube :: 'c

definition visited_at :: "('c \<rightharpoonup> bool) \<Rightarrow> 'c \<Rightarrow> bool \<times> ('c \<rightharpoonup> bool)" where
  "visited_at m c = (case m c of None \<Rightarrow> (False, m(c \<mapsto> False)) | Some b \<Rightarrow> (b, m))"

definition move_done_at :: "('c \<rightharpoonup> MOVE) \<Rightarrow> 'c \<Rightarrow> MOVE \<times> ('c \<rightharpoonup> MOVE)" where
  "move_done_at m c = (case m c of None \<Rightarrow> (0, m(c \<mapsto> 0)) | Some v \<Rightarrow> (v, m))"

definition resetStructure :: "'c solver \<Rightarrow> 'c solver" where
  "resetStructure s = s\<lparr>moves := [], visited := Map.empty, move_done := Map.empty\<rparr>"

text \<open>The constructor stores the cube and leaves the other members default-constructed.\<close>

definition IDAstarSolver :: "'c CornerPatternDatabase \<Rightarrow> 'c \<Rightarrow> 'c solver" where
  "IDAstarSolver db c =
     \<lparr>cornerDB = db, moves = [], move_done = Map.empty, visited = Map.empty, rubiksCube = c\<rparr>"

subsection \<open>Bounded expansion: \<open>IDAstar\<close>\<close>

text \<open>
  The record \<open>search\<close> extends the solver object by the local variables of
  \<^verbatim>\<open>IDAstar\<close>: the queue \<open>pq\<close> and \<open>next_bound\<close>. Two further fields are logs that the
  computation never reads: \<open>expanded\<close> lists the cubes that passed the visited check, in
  order, and \<open>pruned\<close> lists \<open>node.depth + node.estimate\<close> of every candidate that took the
  branch \<^verbatim>\<open>node.depth + node.estimate > bound\<close>.

  \<open>probe\<close> is one round of the loop \<^verbatim>\<open>for (int i=0;i<18;i++)\<close> on the working \<open>node\<close>:
  \<^verbatim>\<open>
    node.cube.move(curr_move);
    if (!visited[node.cube]) {
        node.estimate = 0;
        if (node.depth + node.estimate > bound)
            next_bound = min(next_bound, node.depth + node.estimate);
        else pq.push({node,i});
    }
    node.cube.invert(curr_move);\<close>
\<close>

record 'c search = "'c solver" +
  pq :: "('c Node \<times> nat) list"
  next_bound :: int
  expanded :: "'c list"
  pruned :: "int list"

definition probe :: "'c cube_ops \<Rightarrow> int \<Rightarrow> 'c Node \<times> 'c search \<Rightarrow> nat \<Rightarrow> 'c Node \<times> 'c search" where
  "probe ops bound ns i =
     (let node = (fst ns)\<lparr>cube := move ops (cube (fst ns)) i\<rparr>;
          r = visited_at (visited (snd ns)) (cube node);
          st = (snd ns)\<lparr>visited := snd r\<rparr>;
          ns' = (if \<not> fst r then
                   (let node = node\<lparr>estimate := 0\<rparr> in
                    if depth node + estimate node > bound
                    then (node, st\<lparr>next_bound := min (next_bound st) (depth node + estimate node),
                                  pruned := pruned st @ [depth node + estimate node]\<rparr>)
                    else (node, st\<lparr>pq := pq_push (node, i) (pq st)\<rparr>))
                 else (node, st))
      in ((fst ns')\<lparr>cube := invert ops (cube (fst ns')) i\<rparr>, snd ns'))"

definition expand :: "'c cube_ops \<Rightarrow> int \<Rightarrow> 'c Node \<Rightarrow> 'c search \<Rightarrow> 'c search" where
  "expand ops bound node st = snd (foldl (probe ops bound) (node, st) [0..<18])"

text \<open>
  The \<^verbatim>\<open>while (!pq.empty())\<close> loop ends: a popped node of depth \<open>d\<close> is replaced by at most
  18 nodes of depth \<open>d + 1 \<le> bound\<close>, so the sum of \<open>19 ^ (bound + 1 - depth)\<close> over the queue
  decreases.
\<close>

definition weight :: "int \<Rightarrow> ('c Node \<times> nat) list \<Rightarrow> nat" where
  "weight bound q = sum_list (map (\<lambda>p. 19 ^ nat (bound + 1 - depth (fst p))) q)"

lemma top_from_mem: "top_from b xs \<in> set (b # xs)"
  by (induction xs arbitrary: b) auto

lemma pq_top_mem: "q \<noteq> [] \<Longrightarrow> pq_top q \<in> set q"
  using top_from_mem [of "hd q" "tl q"] by (cases q) (auto simp: pq_top_def)

lemma weight_pop:
  "q \<noteq> [] \<Longrightarrow> weight bound q = 19 ^ nat (bound + 1 - depth (fst (pq_top q))) + weight bound (pq_pop q)"
  unfolding weight_def pq_pop_def
  by (rule sum_list_map_remove1) (rule pq_top_mem)

lemma weight_push: "weight bound (pq_push x q) = weight bound q + 19 ^ nat (bound + 1 - depth (fst x))"
  by (simp add: weight_def pq_push_def)

definition push_weight :: "int \<Rightarrow> int \<Rightarrow> nat" where
  "push_weight bound d = (if d \<le> bound then 19 ^ nat (bound + 1 - d) else 0)"

lemma probe_depth: "depth (fst (probe ops bound ns i)) = depth (fst ns)"
  by (simp add: probe_def Let_def)

lemma probe_weight:
  "weight bound (pq (snd (probe ops bound ns i)))
     \<le> weight bound (pq (snd ns)) + push_weight bound (depth (fst ns))"
  by (simp add: probe_def Let_def weight_push push_weight_def)

lemma foldl_probe_weight:
  "depth (fst (foldl (probe ops bound) ns ms)) = depth (fst ns) \<and>
   weight bound (pq (snd (foldl (probe ops bound) ns ms)))
     \<le> weight bound (pq (snd ns)) + length ms * push_weight bound (depth (fst ns))"
proof (induction ms arbitrary: ns)
  case Nil
  show ?case by simp
next
  case (Cons i ms)
  from Cons.IH [of "probe ops bound ns i"] probe_weight [of bound ops ns i]
  show ?case by (simp add: probe_depth)
qed

lemma expand_weight:
  "weight bound (pq (expand ops bound node st))
     \<le> weight bound (pq st) + 18 * push_weight bound (depth node)"
  using foldl_probe_weight [of ops bound "(node, st)" "[0..<18]"]
  by (simp add: expand_def)

lemma child_weight: "18 * push_weight bound (d + 1) < 19 ^ nat (bound + 1 - d)"
proof (cases "d + 1 \<le> bound")
  case True
  then have "nat (bound + 1 - d) = Suc (nat (bound + 1 - (d + 1)))" by simp
  then show ?thesis using True by (simp add: push_weight_def)
next
  case False
  then show ?thesis by (simp add: push_weight_def)
qed

text \<open>
  The loop of \<^verbatim>\<open>IDAstar\<close>. The first component of the result is the node at which
  \<^verbatim>\<open>return make_pair(node.cube,bound)\<close> was taken, or \<open>None\<close> when the queue ran empty.
\<close>

function IDAstar_loop :: "'c cube_ops \<Rightarrow> int \<Rightarrow> 'c search \<Rightarrow> 'c Node option \<times> 'c search" where
  "IDAstar_loop ops bound st =
     (if pq st = [] then (None, st)
      else
        let p = pq_top (pq st);
            node = fst p;
            st = st\<lparr>pq := pq_pop (pq st)\<rparr>;
            r = visited_at (visited st) (cube node)
        in if fst r then IDAstar_loop ops bound (st\<lparr>visited := snd r\<rparr>)
           else
             let st = st\<lparr>visited := (snd r)(cube node \<mapsto> True),
                        move_done := (move_done st)(cube node \<mapsto> snd p),
                        expanded := expanded st @ [cube node]\<rparr>
             in if isSolved ops (cube node) then (Some node, st)
                else IDAstar_loop ops bound (expand ops bound (node\<lparr>depth := depth node + 1\<rparr>) st))"
  by pat_completeness auto
termination
proof (relation "measure (\<lambda>(ops, bound, st). weight bound (pq st))")
  show "wf (measure (\<lambda>(ops :: 'c cube_ops, bound, st :: 'c search). weight bound (pq st)))"
    by simp
next
  fix ops :: "'c cube_ops" and bound :: int and st st' :: "'c search" and p node r
  assume "pq st \<noteq> []" and "st' = st\<lparr>pq := pq_pop (pq st)\<rparr>"
  then show "((ops, bound, st'\<lparr>visited := snd r\<rparr>), ops, bound, st)
      \<in> measure (\<lambda>(ops, bound, st). weight bound (pq st))"
    using weight_pop [of "pq st" bound] by simp
next
  fix ops :: "'c cube_ops" and bound :: int and st st' st'' :: "'c search" and p node r
  assume ne: "pq st \<noteq> []" and p: "p = pq_top (pq st)" and node: "node = fst p"
    and st': "st' = st\<lparr>pq := pq_pop (pq st)\<rparr>"
    and st'': "st'' = st'\<lparr>visited := (snd r)(cube node \<mapsto> True),
        move_done := (move_done st')(cube node \<mapsto> snd p), expanded := expanded st' @ [cube node]\<rparr>"
  have "weight bound (pq (expand ops bound (node\<lparr>depth := depth node + 1\<rparr>) st''))
      \<le> weight bound (pq_pop (pq st))
        + 18 * push_weight bound (depth node + 1)"
    using expand_weight [of bound ops "node\<lparr>depth := depth node + 1\<rparr>" st''] by (simp add: st' st'')
  also have "\<dots> < weight bound (pq_pop (pq st)) + 19 ^ nat (bound + 1 - depth node)"
    using child_weight [of bound "depth node"] by simp
  also have "\<dots> = weight bound (pq st)"
    using weight_pop [OF ne, of bound] by (simp add: p node)
  finally show "((ops, bound, expand ops bound (node\<lparr>depth := depth node + 1\<rparr>) st''), ops, bound, st)
      \<in> measure (\<lambda>(ops, bound, st). weight bound (pq st))"
    by simp
qed

declare IDAstar_loop.simps [simp del]

definition IDAstar_init :: "'c solver \<Rightarrow> 'c search" where
  "IDAstar_init s =
     \<lparr>cornerDB = cornerDB s, moves = moves s, move_done = move_done s, visited = visited s,
      rubiksCube = rubiksCube s,
      pq = pq_push (\<lparr>cube = rubiksCube s, depth = 0, estimate = 0\<rparr>, 0) [],
      next_bound = 100, expanded = [], pruned = []\<rparr>"

definition IDAstar_run :: "'c cube_ops \<Rightarrow> int \<Rightarrow> 'c solver \<Rightarrow> 'c Node option \<times> 'c search" where
  "IDAstar_run ops bound s = IDAstar_loop ops bound (IDAstar_init s)"

definition IDAstar :: "'c cube_ops \<Rightarrow> int \<Rightarrow> 'c solver \<Rightarrow> ('c \<times> int) \<times> 'c solver" where
  "IDAstar ops bound s =
     (let r = IDAstar_run ops bound s
      in (case fst r of
            Some node \<Rightarrow> (cube node, bound)
          | None \<Rightarrow> (rubiksCube (snd r), next_bound (snd r)),
          solver.truncate (snd r)))"

subsection \<open>The driver: \<open>solve\<close>\<close>

text \<open>
  \<^verbatim>\<open>
    int bound = 1;
    auto p = IDAstar((bound));
    while (p.second != bound) {
        resetStructure();
        bound = p.second;
        bound = IDAstar(bound);
    }\<close>
  The last assignment stores a pair in an \<open>int\<close>; it is read as storing the pair's integer,
  the only component an \<open>int\<close> can take. \<open>p\<close> is assigned once, before the loop. Neither this
  loop nor the walk back along \<open>move_done\<close> need end, so both are partial functions and
  \<open>None\<close> stands for a call that never returns. The walk back and the return are
  \<^verbatim>\<open>
    T solved_cube = p.first;
    T curr_cube = solved_cube;
    while (curr_cube != rubiksCube) {
        RubiksCube::MOVE curr_move = move_done[curr_cube];
        moves.push_back(curr_move);
        curr_cube.invert(curr_move);
    }
    rubiksCube = solved_cube;
    reverse(moves.begin(),moves.end());
    return moves;\<close>
  The model returns the move sequence together with the solver object as \<open>solve\<close> leaves it.
\<close>

definition solve_iteration :: "'c cube_ops \<Rightarrow> 'c \<times> int \<Rightarrow> int \<times> 'c solver \<Rightarrow> int \<times> 'c solver" where
  "solve_iteration ops p bs =
     (let s = resetStructure (snd bs);
          bound = snd p;
          r = IDAstar ops bound s
      in (snd (fst r), snd r))"

partial_function (option) solve_loop ::
  "'c cube_ops \<Rightarrow> 'c \<times> int \<Rightarrow> int \<times> 'c solver \<Rightarrow> (int \<times> 'c solver) option" where
  "solve_loop ops p bs =
     (if snd p \<noteq> fst bs then solve_loop ops p (solve_iteration ops p bs) else Some bs)"

partial_function (option) reconstruct ::
  "'c cube_ops \<Rightarrow> 'c \<Rightarrow> 'c solver \<Rightarrow> 'c solver option" where
  "reconstruct ops curr_cube s =
     (if curr_cube \<noteq> rubiksCube s then
        (let r = move_done_at (move_done s) curr_cube;
             curr_move = fst r
         in reconstruct ops (invert ops curr_cube curr_move)
              (s\<lparr>move_done := snd r, moves := moves s @ [curr_move]\<rparr>))
      else Some s)"

declare solve_loop.simps [code] reconstruct.simps [code]

definition solve :: "'c cube_ops \<Rightarrow> 'c solver \<Rightarrow> (MOVE list \<times> 'c solver) option" where
  "solve ops s =
     (let bound = 1;
          r = IDAstar ops bound s;
          p = fst r
      in case solve_loop ops p (bound, snd r) of
           None \<Rightarrow> None
         | Some bs \<Rightarrow>
             (let solved_cube = fst p
              in case reconstruct ops solved_cube (snd bs) of
                   None \<Rightarrow> None
                 | Some s' \<Rightarrow>
                     (let s'' = s'\<lparr>rubiksCube := solved_cube, moves := rev (moves s')\<rparr>
                      in Some (moves s'', s''))))"

text \<open>
  The calls of \<open>IDAstar\<close> that one call of \<open>solve\<close> makes, as observed from outside:
  \<open>iterations ops p k bs\<close> is the state of the driver loop after \<open>k\<close> rounds of its body
  \<open>solve_iteration\<close> (\<open>None\<close> when the loop has left before), and \<open>IDAstar_call ops s k\<close> is the
  bound and the solver object with which call number \<open>k\<close> (from 0) is entered. That these
  are the calls of the driver is proved below: \<open>solve_loop\<close> runs through the states
  \<open>iterations\<close> lists (\<open>solve_loop_iterations\<close>, \<open>solve_loop_finite\<close>), the state after a round is
  the outcome of \<open>IDAstar\<close> on the entry \<open>IDAstar_call\<close> gives (\<open>IDAstar_call_round\<close>), every
  round has such an entry (\<open>IDAstar_call_complete\<close>), and \<open>solve\<close> is what follows from the
  outcome of call 0 (\<open>IDAstar_call_first\<close>).
\<close>

primrec iterations ::
  "'c cube_ops \<Rightarrow> 'c \<times> int \<Rightarrow> nat \<Rightarrow> int \<times> 'c solver \<Rightarrow> (int \<times> 'c solver) option" where
  "iterations ops p 0 bs = Some bs"
| "iterations ops p (Suc k) bs =
     (if snd p \<noteq> fst bs then iterations ops p k (solve_iteration ops p bs) else None)"

fun IDAstar_call :: "'c cube_ops \<Rightarrow> 'c solver \<Rightarrow> nat \<Rightarrow> (int \<times> 'c solver) option" where
  "IDAstar_call ops s 0 = Some (1, s)"
| "IDAstar_call ops s (Suc k) =
     (let r = IDAstar ops 1 s; p = fst r
      in case iterations ops p k (1, snd r) of
           None \<Rightarrow> None
         | Some bs \<Rightarrow> if snd p \<noteq> fst bs then Some (snd p, resetStructure (snd bs)) else None)"

text \<open>The states that moves and their inversions lead to from a root.\<close>

inductive_set reach :: "'c cube_ops \<Rightarrow> 'c \<Rightarrow> 'c set" for ops :: "'c cube_ops" and c0 :: 'c where
  root: "c0 \<in> reach ops c0"
| by_move: "c \<in> reach ops c0 \<Longrightarrow> i < 18 \<Longrightarrow> move ops c i \<in> reach ops c0"
| by_invert: "c \<in> reach ops c0 \<Longrightarrow> i < 18 \<Longrightarrow> invert ops c i \<in> reach ops c0"

text \<open>The claim "\<open>b\<close> is the smallest of the costs \<open>cs\<close>".\<close>

definition least_pruned_cost :: "int list \<Rightarrow> int \<Rightarrow> bool" where
  "least_pruned_cost cs b \<longleftrightarrow> b \<in> set cs \<and> (\<forall>c\<in>set cs. b \<le> c)"

subsection \<open>Small puzzles for concrete runs\<close>

text \<open>
  Instances of the cube interface on which the solver can be run by rewriting. On the
  number line a state is an integer, moves 0 to 8 add one, moves 9 to 17 subtract one, and
  0 is solved; \<open>line_distance\<close> is its exact distance heuristic. \<open>hop_ops\<close> moves by two, so
  that 0 cannot be reached from an odd number. \<open>coin_ops\<close> has two states, every move turns
  the coin, and no state is solved. In each of them \<open>invert\<close> undoes \<open>move\<close>.
\<close>

definition no_heuristic :: "'c CornerPatternDatabase" where
  "no_heuristic c = 0"

definition line_distance :: "int CornerPatternDatabase" where
  "line_distance c = \<bar>c\<bar>"

definition hop_ops :: "int cube_ops" where
  "hop_ops = \<lparr>move = (\<lambda>c i. if i < 9 then c + 2 else c - 2),
              invert = (\<lambda>c i. if i < 9 then c - 2 else c + 2),
              isSolved = (\<lambda>c. c = 0)\<rparr>"

definition coin_ops :: "bool cube_ops" where
  "coin_ops = \<lparr>move = (\<lambda>c i. \<not> c), invert = (\<lambda>c i. \<not> c), isSolved = (\<lambda>c. False)\<rparr>"

definition line_ops :: "int cube_ops" where
  "line_ops = \<lparr>move = (\<lambda>c i. if i < 9 then c + 1 else c - 1),
               invert = (\<lambda>c i. if i < 9 then c - 1 else c + 1),
               isSolved = (\<lambda>c. c = 0)\<rparr>"

definition sample_frontier :: "(int Node \<times> nat) list" where
  "sample_frontier =
     [(\<lparr>cube = 5, depth = 2, estimate = 1\<rparr>, 0),
      (\<lparr>cube = 6, depth = 1, estimate = 1\<rparr>, 1),
      (\<lparr>cube = 7, depth = 2, estimate = 0\<rparr>, 2)]"

section \<open>Facts about the bounded expansion\<close>

subsection \<open>Reading the visited map\<close>

lemma visited_at_True: "fst (visited_at m c) \<longleftrightarrow> m c = Some True"
  by (simp add: visited_at_def split: option.splits)

lemma visited_at_seen: "fst (visited_at m c) \<Longrightarrow> snd (visited_at m c) = m"
  by (simp add: visited_at_def split: option.splits)

lemma visited_at_fresh: "\<not> fst (visited_at m c) \<Longrightarrow> (snd (visited_at m c))(c \<mapsto> True) = m(c \<mapsto> True)"
  by (simp add: visited_at_def split: option.splits)

lemma visited_at_keeps: "snd (visited_at m c) c' = Some True \<longleftrightarrow> m c' = Some True"
  by (simp add: visited_at_def split: option.splits)

subsection \<open>An invariant rule for the loop of \<open>IDAstar\<close>\<close>

text \<open>
  A property \<open>I\<close> of the search state that popping, marking and probing preserve holds when
  the loop ends; \<open>J\<close> is what is known of a popped node and \<open>K\<close> of the working node of the
  inner loop.
\<close>

lemma foldl_probe_invariant:
  assumes step: "\<And>n st i. I st \<Longrightarrow> K n \<Longrightarrow> i < 18 \<Longrightarrow>
      I (snd (probe ops bound (n, st) i)) \<and> K (fst (probe ops bound (n, st) i))"
  shows "I (snd ns) \<Longrightarrow> K (fst ns) \<Longrightarrow> \<forall>i\<in>set ms. i < 18 \<Longrightarrow>
      I (snd (foldl (probe ops bound) ns ms))"
proof (induction ms arbitrary: ns)
  case Nil
  then show ?case by simp
next
  case (Cons i ms)
  from Cons.prems step [of "snd ns" "fst ns" i]
  have "I (snd (probe ops bound ns i))" and "K (fst (probe ops bound ns i))" by simp_all
  with Cons.IH [of "probe ops bound ns i"] Cons.prems show ?case by simp
qed

lemma expand_invariant:
  assumes "\<And>n st i. I st \<Longrightarrow> K n \<Longrightarrow> i < 18 \<Longrightarrow>
      I (snd (probe ops bound (n, st) i)) \<and> K (fst (probe ops bound (n, st) i))"
    and "I st" and "K n"
  shows "I (expand ops bound n st)"
  unfolding expand_def
  by (rule foldl_probe_invariant [where K = K]) (use assms in simp_all)

lemma IDAstar_loop_invariant:
  assumes pop: "\<And>st. I st \<Longrightarrow> pq st \<noteq> [] \<Longrightarrow>
      I (st\<lparr>pq := pq_pop (pq st)\<rparr>) \<and> J (fst (pq_top (pq st)))"
    and mark: "\<And>st c m. I st \<Longrightarrow> \<not> fst (visited_at (visited st) c) \<Longrightarrow>
      I (st\<lparr>visited := (visited st)(c \<mapsto> True), move_done := (move_done st)(c \<mapsto> m),
             expanded := expanded st @ [c]\<rparr>)"
    and descend: "\<And>n. J n \<Longrightarrow> K (n\<lparr>depth := depth n + 1\<rparr>)"
    and step: "\<And>n st i. I st \<Longrightarrow> K n \<Longrightarrow> i < 18 \<Longrightarrow>
      I (snd (probe ops bound (n, st) i)) \<and> K (fst (probe ops bound (n, st) i))"
    and init: "I st"
  shows "I (snd (IDAstar_loop ops bound st)) \<and>
         (\<forall>n. fst (IDAstar_loop ops bound st) = Some n \<longrightarrow> J n \<and> isSolved ops (cube n))"
  using assms
proof (induction ops bound st rule: IDAstar_loop.induct)
  case (1 ops bound st)
  note pop = "1.prems"(1) and mark = "1.prems"(2) and descend = "1.prems"(3)
    and step = "1.prems"(4) and init = "1.prems"(5)
  show ?case
  proof (cases "pq st = []")
    case True
    then show ?thesis using init by (simp add: IDAstar_loop.simps [of ops bound st])
  next
    case ne: False
    define p where "p = pq_top (pq st)"
    define node where "node = fst p"
    define st1 where "st1 = st\<lparr>pq := pq_pop (pq st)\<rparr>"
    define r where "r = visited_at (visited st1) (cube node)"
    have I1: "I st1" and Jn: "J node"
      using pop [OF init ne] by (simp_all add: st1_def node_def p_def)
    show ?thesis
    proof (cases "fst r")
      case True
      then have eq: "st1\<lparr>visited := snd r\<rparr> = st1"
        by (simp add: r_def visited_at_seen)
      have unf: "IDAstar_loop ops bound st = IDAstar_loop ops bound (st1\<lparr>visited := snd r\<rparr>)"
        using ne True
        by (simp add: IDAstar_loop.simps [of ops bound st] Let_def p_def node_def st1_def r_def)
      have "I (st1\<lparr>visited := snd r\<rparr>)" using I1 eq by simp
      from "1.IH"(1) [OF ne p_def node_def st1_def r_def True pop mark descend step this]
      show ?thesis by (simp add: unf)
    next
      case False
      define st2 where "st2 = st1\<lparr>visited := (snd r)(cube node \<mapsto> True),
          move_done := (move_done st1)(cube node \<mapsto> snd p),
          expanded := expanded st1 @ [cube node]\<rparr>"
      have nv: "\<not> fst (visited_at (visited st1) (cube node))"
        using False by (simp add: r_def)
      have eq2: "st2 = st1\<lparr>visited := (visited st1)(cube node \<mapsto> True),
          move_done := (move_done st1)(cube node \<mapsto> snd p),
          expanded := expanded st1 @ [cube node]\<rparr>"
        by (simp only: st2_def r_def visited_at_fresh [OF nv])
      have I2: "I st2"
        unfolding eq2 using I1 nv by (rule mark)
      show ?thesis
      proof (cases "isSolved ops (cube node)")
        case True
        have "IDAstar_loop ops bound st = (Some node, st2)"
          using ne False True
          by (simp add: IDAstar_loop.simps [of ops bound st] Let_def p_def node_def st1_def r_def st2_def)
        then show ?thesis using I2 Jn True by simp
      next
        case ns: False
        have unf: "IDAstar_loop ops bound st
            = IDAstar_loop ops bound (expand ops bound (node\<lparr>depth := depth node + 1\<rparr>) st2)"
          using ne False ns
          by (simp add: IDAstar_loop.simps [of ops bound st] Let_def p_def node_def st1_def r_def st2_def)
        have "I (expand ops bound (node\<lparr>depth := depth node + 1\<rparr>) st2)"
          using step I2 descend [OF Jn] by (rule expand_invariant [where K = K])
        from "1.IH"(2) [OF ne p_def node_def st1_def r_def False st2_def ns pop mark descend step this]
        show ?thesis by (simp add: unf)
      qed
    qed
  qed
qed

subsection \<open>Invariants\<close>

lemma set_pq_pop: "set (pq_pop q) \<subseteq> set q"
  by (simp add: pq_pop_def set_remove1_subset)

lemma probe_pq:
  "set (pq (snd (probe ops bound (n, st) i)))
     \<subseteq> set (pq st) \<union> {x. x = (n\<lparr>cube := move ops (cube n) i, estimate := 0\<rparr>, i) \<and> depth n \<le> bound}"
  by (auto simp: probe_def Let_def pq_push_def)

lemma probe_visited:
  "visited (snd (probe ops bound (n, st) i)) c = Some True \<longleftrightarrow> visited st c = Some True"
  by (simp add: probe_def Let_def visited_at_keeps)

lemma probe_fields:
  "cornerDB (snd (probe ops bound (n, st) i)) = cornerDB st"
  "rubiksCube (snd (probe ops bound (n, st) i)) = rubiksCube st"
  "moves (snd (probe ops bound (n, st) i)) = moves st"
  "move_done (snd (probe ops bound (n, st) i)) = move_done st"
  "expanded (snd (probe ops bound (n, st) i)) = expanded st"
  by (simp_all add: probe_def Let_def)

lemma probe_cube:
  "cube (fst (probe ops bound (n, st) i)) = invert ops (move ops (cube n) i) i"
  by (simp add: probe_def Let_def)

text \<open>Fields of the solver object that the bounded expansion never writes.\<close>

lemma IDAstar_loop_fields:
  "rubiksCube (snd (IDAstar_loop ops bound st)) = rubiksCube st \<and>
   cornerDB (snd (IDAstar_loop ops bound st)) = cornerDB st \<and>
   moves (snd (IDAstar_loop ops bound st)) = moves st"
proof -
  define I where "I = (\<lambda>t :: 'a search. rubiksCube t = rubiksCube st \<and> cornerDB t = cornerDB st \<and> moves t = moves st)"
  have "I (snd (IDAstar_loop ops bound st)) \<and>
      (\<forall>n. fst (IDAstar_loop ops bound st) = Some n \<longrightarrow> True \<and> isSolved ops (cube n))"
    by (rule IDAstar_loop_invariant [where I = I and J = "\<lambda>_. True" and K = "\<lambda>_. True"])
      (simp_all add: I_def probe_fields)
  then show ?thesis by (simp add: I_def)
qed

lemma IDAstar_loop_solved:
  "fst (IDAstar_loop ops bound st) = Some n \<Longrightarrow> isSolved ops (cube n)"
  using IDAstar_loop_invariant [where I = "\<lambda>_. True" and J = "\<lambda>_. True" and K = "\<lambda>_. True", of ops bound st]
  by simp

text \<open>The running minimum against the log of pruned costs.\<close>

lemma probe_next_bound:
  assumes "next_bound st = Min (insert 100 (set (pruned st)))" and "\<forall>c\<in>set (pruned st). bound < c"
  shows "next_bound (snd (probe ops bound (n, st) i)) = Min (insert 100 (set (pruned (snd (probe ops bound (n, st) i)))))
    \<and> (\<forall>c\<in>set (pruned (snd (probe ops bound (n, st) i))). bound < c)"
proof -
  have "min (Min (insert 100 (set (pruned st)))) x = Min (insert 100 (set (pruned st @ [x])))" for x :: int
    by (simp add: min.commute insert_commute)
  with assms show ?thesis by (auto simp: probe_def Let_def)
qed

lemma IDAstar_loop_next_bound:
  assumes "next_bound st = Min (insert 100 (set (pruned st)))" and "\<forall>c\<in>set (pruned st). bound < c"
  shows "next_bound (snd (IDAstar_loop ops bound st)) = Min (insert 100 (set (pruned (snd (IDAstar_loop ops bound st)))))
    \<and> (\<forall>c\<in>set (pruned (snd (IDAstar_loop ops bound st))). bound < c)"
proof -
  define I where "I = (\<lambda>t :: 'a search. next_bound t = Min (insert 100 (set (pruned t))) \<and> (\<forall>c\<in>set (pruned t). bound < c))"
  have "I (snd (IDAstar_loop ops bound st)) \<and>
      (\<forall>n. fst (IDAstar_loop ops bound st) = Some n \<longrightarrow> True \<and> isSolved ops (cube n))"
  proof (rule IDAstar_loop_invariant [where I = I and J = "\<lambda>_. True" and K = "\<lambda>_. True"])
    show "I st" using assms by (simp add: I_def)
    show "I (snd (probe ops bound (n, t) i)) \<and> True" if "I t" for n t i
      using that probe_next_bound [of t bound ops n i] by (simp add: I_def)
  qed (simp_all add: I_def)
  then show ?thesis by (simp add: I_def)
qed

text \<open>Expanded states: each at most once, and none that was marked visited before.\<close>

lemma IDAstar_loop_expanded:
  assumes "distinct (expanded st)" and "\<forall>c\<in>set (expanded st). visited st c = Some True"
  shows "distinct (expanded (snd (IDAstar_loop ops bound st)))
    \<and> (\<forall>c\<in>set (expanded (snd (IDAstar_loop ops bound st))). visited (snd (IDAstar_loop ops bound st)) c = Some True)"
proof -
  define I where "I = (\<lambda>t :: 'a search. distinct (expanded t) \<and> (\<forall>c\<in>set (expanded t). visited t c = Some True))"
  have "I (snd (IDAstar_loop ops bound st)) \<and>
      (\<forall>n. fst (IDAstar_loop ops bound st) = Some n \<longrightarrow> True \<and> isSolved ops (cube n))"
  proof (rule IDAstar_loop_invariant [where I = I and J = "\<lambda>_. True" and K = "\<lambda>_. True"])
    show "I st" using assms by (simp add: I_def)
    show "I (snd (probe ops bound (n, t) i)) \<and> True" if "I t" for n t i
      using that by (simp add: I_def probe_fields probe_visited)
    show "I (t\<lparr>visited := (visited t)(c \<mapsto> True), move_done := (move_done t)(c \<mapsto> m),
             expanded := expanded t @ [c]\<rparr>)"
      if "I t" and "\<not> fst (visited_at (visited t) c)" for t c m
      using that by (auto simp: I_def visited_at_True)
  qed (simp_all add: I_def)
  then show ?thesis by (simp add: I_def)
qed

text \<open>Every node of the frontier is within the bound and carries the estimate 0.\<close>

lemma IDAstar_loop_frontier:
  assumes "\<forall>p\<in>set (pq st). depth (fst p) \<le> bound \<and> estimate (fst p) = 0"
  shows "fst (IDAstar_loop ops bound st) = Some n \<Longrightarrow> depth n \<le> bound \<and> estimate n = 0"
proof -
  define I where "I = (\<lambda>t :: 'a search. \<forall>p\<in>set (pq t). depth (fst p) \<le> bound \<and> estimate (fst p) = 0)"
  have "I (snd (IDAstar_loop ops bound st)) \<and>
      (\<forall>n. fst (IDAstar_loop ops bound st) = Some n \<longrightarrow> (depth n \<le> bound \<and> estimate n = 0) \<and> isSolved ops (cube n))"
  proof (rule IDAstar_loop_invariant [where I = I and J = "\<lambda>n. depth n \<le> bound \<and> estimate n = 0" and K = "\<lambda>_. True"])
    show "I st" using assms by (simp add: I_def)
    show "I (snd (probe ops bound (n, t) i)) \<and> True" if "I t" for n t i
      using that probe_pq [of ops bound n t i] by (auto simp: I_def)
    show "I (t\<lparr>pq := pq_pop (pq t)\<rparr>) \<and> depth (fst (pq_top (pq t))) \<le> bound \<and> estimate (fst (pq_top (pq t))) = 0"
      if "I t" and "pq t \<noteq> []" for t
      using that set_pq_pop [of "pq t"] pq_top_mem [of "pq t"] by (auto simp: I_def)
  qed (simp_all add: I_def)
  then show "fst (IDAstar_loop ops bound st) = Some n \<Longrightarrow> depth n \<le> bound \<and> estimate n = 0" by simp
qed

text \<open>The search only ever sees states reachable from the root.\<close>

lemma IDAstar_loop_reach:
  assumes "\<forall>p\<in>set (pq st). cube (fst p) \<in> reach ops c0"
  shows "fst (IDAstar_loop ops bound st) = Some n \<Longrightarrow> cube n \<in> reach ops c0"
proof -
  define I where "I = (\<lambda>t :: 'a search. \<forall>p\<in>set (pq t). cube (fst p) \<in> reach ops c0)"
  define J where "J = (\<lambda>n :: 'a Node. cube n \<in> reach ops c0)"
  have "I (snd (IDAstar_loop ops bound st)) \<and>
      (\<forall>n. fst (IDAstar_loop ops bound st) = Some n \<longrightarrow> J n \<and> isSolved ops (cube n))"
  proof (rule IDAstar_loop_invariant [where I = I and J = J and K = J])
    show "I st" using assms by (simp add: I_def)
    show "I (snd (probe ops bound (n, t) i)) \<and> J (fst (probe ops bound (n, t) i))"
      if "I t" and "J n" and "i < 18" for n t i
    proof -
      have mv: "move ops (cube n) i \<in> reach ops c0"
        using that by (auto simp: J_def intro: reach.by_move)
      have "cube (fst p) \<in> reach ops c0" if p: "p \<in> set (pq (snd (probe ops bound (n, t) i)))" for p
      proof -
        from p probe_pq [of ops bound n t i]
        have "p \<in> set (pq t) \<or> p = (n\<lparr>cube := move ops (cube n) i, estimate := 0\<rparr>, i)" by auto
        then show ?thesis using \<open>I t\<close> mv by (auto simp: I_def)
      qed
      moreover have "invert ops (move ops (cube n) i) i \<in> reach ops c0"
        using mv \<open>i < 18\<close> by (rule reach.by_invert)
      ultimately show ?thesis by (simp add: I_def J_def probe_cube)
    qed
    show "I (t\<lparr>pq := pq_pop (pq t)\<rparr>) \<and> J (fst (pq_top (pq t)))"
      if "I t" and "pq t \<noteq> []" for t
      using that set_pq_pop [of "pq t"] pq_top_mem [of "pq t"] by (auto simp: I_def J_def)
  qed (simp_all add: I_def J_def)
  then show "fst (IDAstar_loop ops bound st) = Some n \<Longrightarrow> cube n \<in> reach ops c0" by (simp add: J_def)
qed

subsection \<open>The outcome of \<open>IDAstar\<close>\<close>

lemma IDAstar_init_simps:
  "pq (IDAstar_init s) = [(\<lparr>cube = rubiksCube s, depth = 0, estimate = 0\<rparr>, 0)]"
  "next_bound (IDAstar_init s) = 100"
  "expanded (IDAstar_init s) = []"
  "pruned (IDAstar_init s) = []"
  "rubiksCube (IDAstar_init s) = rubiksCube s"
  "cornerDB (IDAstar_init s) = cornerDB s"
  "moves (IDAstar_init s) = moves s"
  "visited (IDAstar_init s) = visited s"
  "move_done (IDAstar_init s) = move_done s"
  by (simp_all add: IDAstar_init_def pq_push_def)

lemma IDAstar_fields:
  "rubiksCube (snd (IDAstar ops bound s)) = rubiksCube s"
  "cornerDB (snd (IDAstar ops bound s)) = cornerDB s"
  "moves (snd (IDAstar ops bound s)) = moves s"
  using IDAstar_loop_fields [of ops bound "IDAstar_init s"]
  by (simp_all add: IDAstar_def IDAstar_run_def Let_def solver.defs IDAstar_init_simps)

lemma IDAstar_unsolved:
  "fst (IDAstar_run ops bound s) = None \<Longrightarrow>
     fst (IDAstar ops bound s) = (rubiksCube s, next_bound (snd (IDAstar_run ops bound s)))"
  using IDAstar_loop_fields [of ops bound "IDAstar_init s"]
  by (simp add: IDAstar_def IDAstar_run_def Let_def IDAstar_init_simps)

lemma IDAstar_solved:
  assumes "fst (IDAstar_run ops bound s) = Some n"
  shows "fst (IDAstar ops bound s) = (cube n, bound)" and "isSolved ops (cube n)"
    and "cube n \<in> reach ops (rubiksCube s)" and "0 \<le> bound \<Longrightarrow> depth n \<le> bound"
proof -
  from assms have f: "fst (IDAstar_loop ops bound (IDAstar_init s)) = Some n"
    by (simp add: IDAstar_run_def)
  show "fst (IDAstar ops bound s) = (cube n, bound)"
    using assms by (simp add: IDAstar_def Let_def)
  show "isSolved ops (cube n)" using f by (rule IDAstar_loop_solved)
  show "cube n \<in> reach ops (rubiksCube s)"
    by (rule IDAstar_loop_reach [OF _ f]) (simp add: IDAstar_init_simps reach.root)
  show "depth n \<le> bound" if "0 \<le> bound"
  proof -
    from that have "\<forall>p\<in>set (pq (IDAstar_init s)). depth (fst p) \<le> bound \<and> estimate (fst p) = 0"
      by (simp add: IDAstar_init_simps)
    from IDAstar_loop_frontier [OF this f] show ?thesis by simp
  qed
qed

text \<open>The integer of the outcome against the bound of the call.\<close>

lemma IDAstar_unsolved_bound:
  assumes none: "fst (IDAstar_run ops bound s) = None" and b: "bound < 100"
  shows "bound < snd (fst (IDAstar ops bound s))" and "snd (fst (IDAstar ops bound s)) \<le> 100"
proof -
  define cs where "cs = pruned (snd (IDAstar_run ops bound s))"
  have "next_bound (snd (IDAstar_loop ops bound (IDAstar_init s)))
        = Min (insert 100 (set (pruned (snd (IDAstar_loop ops bound (IDAstar_init s))))))
      \<and> (\<forall>c\<in>set (pruned (snd (IDAstar_loop ops bound (IDAstar_init s)))). bound < c)"
    by (rule IDAstar_loop_next_bound) (simp_all add: IDAstar_init_simps)
  then have eq: "snd (fst (IDAstar ops bound s)) = Min (insert 100 (set cs))"
    and over: "\<forall>c\<in>set cs. bound < c"
    using IDAstar_unsolved [OF none] by (simp_all add: IDAstar_run_def cs_def)
  have "Min (insert 100 (set cs)) \<in> insert 100 (set cs)"
    by (rule Min_in) simp_all
  with over b show "bound < snd (fst (IDAstar ops bound s))"
    unfolding eq by auto
  show "snd (fst (IDAstar ops bound s)) \<le> 100"
    unfolding eq by (rule Min_le) simp_all
qed

lemma IDAstar_bound_ge:
  assumes "1 \<le> bound" and "bound \<le> 100"
  shows "bound \<le> snd (fst (IDAstar ops bound s))"
proof (cases "fst (IDAstar_run ops bound s)")
  case None
  show ?thesis
  proof (cases "bound = 100")
    case True
    have "next_bound (snd (IDAstar_loop ops bound (IDAstar_init s)))
          = Min (insert 100 (set (pruned (snd (IDAstar_loop ops bound (IDAstar_init s))))))
        \<and> (\<forall>c\<in>set (pruned (snd (IDAstar_loop ops bound (IDAstar_init s)))). bound < c)"
      by (rule IDAstar_loop_next_bound) (simp_all add: IDAstar_init_simps)
    then have eq: "snd (fst (IDAstar ops bound s)) = Min (insert 100 (set (pruned (snd (IDAstar_run ops bound s)))))"
      and over: "\<forall>c\<in>set (pruned (snd (IDAstar_run ops bound s))). bound < c"
      using IDAstar_unsolved [OF None] by (simp_all add: IDAstar_run_def)
    have "Min (insert 100 (set (pruned (snd (IDAstar_run ops bound s)))))
        \<in> insert 100 (set (pruned (snd (IDAstar_run ops bound s))))"
      by (rule Min_in) simp_all
    with over True show ?thesis unfolding eq by auto
  next
    case False
    with assms have "bound < 100" by simp
    from IDAstar_unsolved_bound(1) [OF None this] show ?thesis by simp
  qed
next
  case (Some n)
  with IDAstar_solved(1) [OF Some] show ?thesis by simp
qed

section \<open>Facts about the driver\<close>

lemma resetStructure_fresh: "resetStructure s = IDAstarSolver (cornerDB s) (rubiksCube s)"
  by (simp add: resetStructure_def IDAstarSolver_def)

lemma solve_iteration_eq:
  "solve_iteration ops p bs =
     (snd (fst (IDAstar ops (snd p) (IDAstarSolver (cornerDB (snd bs)) (rubiksCube (snd bs))))),
      snd (IDAstar ops (snd p) (IDAstarSolver (cornerDB (snd bs)) (rubiksCube (snd bs)))))"
  by (simp add: solve_iteration_def Let_def resetStructure_fresh)

lemma solve_iteration_fields:
  "rubiksCube (snd (solve_iteration ops p bs)) = rubiksCube (snd bs)"
  "cornerDB (snd (solve_iteration ops p bs)) = cornerDB (snd bs)"
  "moves (snd (solve_iteration ops p bs)) = []"
  by (simp_all add: solve_iteration_eq IDAstar_fields) (simp_all add: IDAstarSolver_def)

text \<open>A driver loop whose guard stays true never returns.\<close>

lemma solve_loop_None:
  assumes step: "\<And>bs. I bs \<Longrightarrow> snd p \<noteq> fst bs \<and> I (solve_iteration ops p bs)"
    and init: "I bs"
  shows "solve_loop ops p bs = None"
proof (rule ccontr)
  assume "solve_loop ops p bs \<noteq> None"
  then obtain r where r: "solve_loop ops p bs = Some r" by auto
  have "ops = ops \<longrightarrow> p = p \<longrightarrow> \<not> I bs"
  proof (rule solve_loop.raw_induct
      [where P = "\<lambda>ops' p' bs' r'. ops' = ops \<longrightarrow> p' = p \<longrightarrow> \<not> I bs'", OF _ r])
    fix f ops' p' bs' r'
    assume IH: "\<And>ops' p' bs' r'. f ops' p' bs' = Some r' \<Longrightarrow> ops' = ops \<longrightarrow> p' = p \<longrightarrow> \<not> I bs'"
      and unf: "(if snd p' \<noteq> fst bs' then f ops' p' (solve_iteration ops' p' bs') else Some bs') = Some r'"
    show "ops' = ops \<longrightarrow> p' = p \<longrightarrow> \<not> I bs'"
    proof (intro impI notI)
      assume eq: "ops' = ops" "p' = p" and I: "I bs'"
      from step [OF I] have g: "snd p \<noteq> fst bs'" and I': "I (solve_iteration ops p bs')" by simp_all
      from unf g eq have "f ops p (solve_iteration ops p bs') = Some r'" by simp
      from IH [OF this] I' show False by simp
    qed
  qed
  with init show False by simp
qed


lemma solve_loop_iterations:
  "iterations ops p k bs = Some bs' \<Longrightarrow> solve_loop ops p bs = solve_loop ops p bs'"
proof (induction k arbitrary: bs)
  case 0
  then show ?case by simp
next
  case (Suc k)
  then show ?case by (subst solve_loop.simps) (auto split: if_splits)
qed

text \<open>
  When the first pass returns another bound \<open>b\<close> and the pass at \<open>b\<close> from reset structures
  returns yet another one, the driver repeats that pass for ever: \<open>p\<close> is never updated.
\<close>

lemma solve_diverges:
  assumes b: "snd (fst (IDAstar ops 1 s)) = b" and "b \<noteq> 1"
    and again: "snd (fst (IDAstar ops b (IDAstarSolver (cornerDB s) (rubiksCube s)))) \<noteq> b"
  shows "solve ops s = None"
proof -
  define p where "p = fst (IDAstar ops 1 s)"
  define I where "I = (\<lambda>bs :: int \<times> 'a solver. fst bs \<noteq> b \<and> rubiksCube (snd bs) = rubiksCube s \<and> cornerDB (snd bs) = cornerDB s)"
  have sp: "snd p = b" using b by (simp add: p_def)
  have "solve_loop ops p (1, snd (IDAstar ops 1 s)) = None"
  proof (rule solve_loop_None [where I = I])
    show "I (1, snd (IDAstar ops 1 s))"
      using \<open>b \<noteq> 1\<close> by (simp add: I_def IDAstar_fields)
    show "snd p \<noteq> fst bs \<and> I (solve_iteration ops p bs)" if "I bs" for bs
      using that again by (simp add: I_def sp solve_iteration_fields) (simp add: solve_iteration_eq sp)
  qed
  then show ?thesis by (simp add: solve_def Let_def p_def)
qed


text \<open>A returning driver loop has made finitely many rounds.\<close>

lemma solve_loop_finite:
  assumes r: "solve_loop ops p bs = Some r"
  shows "\<exists>k. iterations ops p k bs = Some r \<and> snd p = fst r"
proof -
  have "ops = ops \<longrightarrow> p = p \<longrightarrow> (\<exists>k. iterations ops p k bs = Some r \<and> snd p = fst r)"
  proof (rule solve_loop.raw_induct
      [where P = "\<lambda>ops' p' bs' r'. ops' = ops \<longrightarrow> p' = p \<longrightarrow>
          (\<exists>k. iterations ops p k bs' = Some r' \<and> snd p = fst r')", OF _ r])
    fix f ops' p' bs' r'
    assume IH: "\<And>ops' p' bs' r'. f ops' p' bs' = Some r'
        \<Longrightarrow> ops' = ops \<longrightarrow> p' = p \<longrightarrow> (\<exists>k. iterations ops p k bs' = Some r' \<and> snd p = fst r')"
      and unf: "(if snd p' \<noteq> fst bs' then f ops' p' (solve_iteration ops' p' bs') else Some bs') = Some r'"
    show "ops' = ops \<longrightarrow> p' = p \<longrightarrow> (\<exists>k. iterations ops p k bs' = Some r' \<and> snd p = fst r')"
    proof (intro impI)
      assume eq: "ops' = ops" "p' = p"
      show "\<exists>k. iterations ops p k bs' = Some r' \<and> snd p = fst r'"
      proof (cases "snd p \<noteq> fst bs'")
        case True
        from unf True eq have "f ops p (solve_iteration ops p bs') = Some r'" by simp
        from IH [OF this] obtain k where
          "iterations ops p k (solve_iteration ops p bs') = Some r'" "snd p = fst r'" by auto
        with True have "iterations ops p (Suc k) bs' = Some r' \<and> snd p = fst r'" by simp
        then show ?thesis by blast
      next
        case False
        with unf eq have "r' = bs'" by simp
        with False have "iterations ops p 0 bs' = Some r' \<and> snd p = fst r'" by simp
        then show ?thesis by blast
      qed
    qed
  qed
  then show ?thesis by simp
qed

text \<open>
  The bounds handed to successive bounded-expansion calls of one \<open>solve\<close> never decrease:
  the first is 1 and every later one is \<open>p.second\<close> of the first call.
\<close>

lemma call_bounds_nondecreasing:
  assumes "IDAstar_call ops s k = Some (b, e)" and "IDAstar_call ops s (Suc k) = Some (b', e')"
  shows "b \<le> b'"
proof (cases k)
  case 0
  with assms(1) have "b = 1" by simp
  moreover from assms(2) have "b' = snd (fst (IDAstar ops 1 s))"
    by (auto simp: Let_def split: option.splits if_splits)
  ultimately show ?thesis using IDAstar_bound_ge [of 1 ops s] by simp
next
  case (Suc j)
  with assms(1) have "b = snd (fst (IDAstar ops 1 s))"
    by (auto simp: Let_def split: option.splits if_splits)
  moreover from assms(2) have "b' = snd (fst (IDAstar ops 1 s))"
    by (auto simp: Let_def split: option.splits if_splits)
  ultimately show ?thesis by simp
qed

section \<open>Facts about the frontier\<close>

lemma compareCube_iff:
  "compareCube p1 p2 \<longleftrightarrow>
     cost (fst p2) < cost (fst p1) \<or> (cost (fst p2) = cost (fst p1) \<and> estimate (fst p2) < estimate (fst p1))"
  by (auto simp: compareCube_def cost_def Let_def)

lemma top_from_best:
  "\<not> compareCube (top_from b xs) b \<and> (\<forall>x\<in>set xs. \<not> compareCube (top_from b xs) x)"
proof (induction xs arbitrary: b)
  case Nil
  show ?case by (simp add: compareCube_iff)
next
  case (Cons x xs)
  define b' where "b' = (if compareCube b x then x else b)"
  have b': "\<not> compareCube b' b" "\<not> compareCube b' x"
    by (auto simp: b'_def compareCube_iff)
  have trans: "\<not> compareCube t y" if "\<not> compareCube t b'" "\<not> compareCube b' y" for t y
    using that by (auto simp: compareCube_iff)
  from Cons.IH [of b'] have t: "\<not> compareCube (top_from b' xs) b'"
    and rest: "\<forall>y\<in>set xs. \<not> compareCube (top_from b' xs) y" by simp_all
  from trans [OF t b'(1)] trans [OF t b'(2)] rest show ?case
    by (simp add: b'_def)
qed

lemma pq_top_best: "q \<noteq> [] \<Longrightarrow> x \<in> set q \<Longrightarrow> \<not> compareCube (pq_top q) x"
proof -
  assume "q \<noteq> []" and x: "x \<in> set q"
  then obtain b xs where q: "q = b # xs" by (cases q) auto
  have t: "pq_top q = top_from b xs" by (simp add: q pq_top_def)
  from x q have "x = b \<or> x \<in> set xs" by simp
  with top_from_best [of b xs] show ?thesis unfolding t by blast
qed

lemma pq_pop_split: "q \<noteq> [] \<Longrightarrow> \<exists>xs ys. q = xs @ pq_top q # ys \<and> pq_pop q = xs @ ys"
proof -
  assume "q \<noteq> []"
  define t where "t = pq_top q"
  have "t \<in> set q" unfolding t_def using \<open>q \<noteq> []\<close> by (rule pq_top_mem)
  from split_list_first [OF this]
  obtain xs ys where q: "q = xs @ t # ys" and n: "t \<notin> set xs" by blast
  have "remove1 t (xs @ t # ys) = xs @ ys"
    using n by (simp add: remove1_append)
  then have "pq_pop q = xs @ ys"
    unfolding pq_pop_def t_def [symmetric] by (simp only: q [symmetric])
  with q show ?thesis unfolding t_def by blast
qed

section \<open>Facts about the calls of one \<open>solve\<close> and about the puzzles\<close>

lemma IDAstar_call_reset:
  "IDAstar_call ops s (Suc k) = Some (b, e) \<Longrightarrow> visited e = Map.empty \<and> move_done e = Map.empty"
  by (auto simp: Let_def resetStructure_def split: option.splits if_splits)

text \<open>
  The observer against the driver. The body of the loop is a call of \<open>IDAstar\<close> on the reset
  object; the state after round \<open>k + 1\<close> is the outcome of \<open>IDAstar\<close> on entry \<open>k + 1\<close>, from
  which the loop goes on; no round is without an entry; and \<open>solve\<close> continues from the
  outcome of entry 0.
\<close>

lemma solve_iteration_call:
  "solve_iteration ops p bs =
     (snd (fst (IDAstar ops (snd p) (resetStructure (snd bs)))),
      snd (IDAstar ops (snd p) (resetStructure (snd bs))))"
  by (simp add: solve_iteration_def Let_def)

lemma iterations_Suc_last:
  "iterations ops p (Suc k) bs0 =
     (case iterations ops p k bs0 of
        None \<Rightarrow> None
      | Some bs \<Rightarrow> if snd p \<noteq> fst bs then Some (solve_iteration ops p bs) else None)"
proof (induction k arbitrary: bs0)
  case 0
  show ?case by simp
next
  case (Suc k)
  show ?case
  proof (cases "snd p \<noteq> fst bs0")
    case True
    then have "iterations ops p (Suc (Suc k)) bs0 = iterations ops p (Suc k) (solve_iteration ops p bs0)"
      by simp
    also have "\<dots> = (case iterations ops p k (solve_iteration ops p bs0) of
        None \<Rightarrow> None
      | Some bs \<Rightarrow> if snd p \<noteq> fst bs then Some (solve_iteration ops p bs) else None)"
      by (rule Suc.IH)
    also have "iterations ops p k (solve_iteration ops p bs0) = iterations ops p (Suc k) bs0"
      using True by simp
    finally show ?thesis .
  next
    case False
    then show ?thesis by simp
  qed
qed

lemma IDAstar_call_round:
  assumes "IDAstar_call ops s (Suc k) = Some (b, e)"
  shows "iterations ops (fst (IDAstar ops 1 s)) (Suc k) (1, snd (IDAstar ops 1 s))
    = Some (snd (fst (IDAstar ops b e)), snd (IDAstar ops b e))"
proof -
  define p where "p = fst (IDAstar ops 1 s)"
  from assms obtain bs where it: "iterations ops p k (1, snd (IDAstar ops 1 s)) = Some bs"
    and g: "snd p \<noteq> fst bs" and b: "b = snd p" and e: "e = resetStructure (snd bs)"
    by (auto simp: Let_def p_def split: option.splits if_splits)
  have "iterations ops p (Suc k) (1, snd (IDAstar ops 1 s)) = Some (solve_iteration ops p bs)"
    using it g by (simp add: iterations_Suc_last del: iterations.simps)
  then show ?thesis by (simp add: solve_iteration_call b e p_def)
qed

lemma IDAstar_call_complete:
  assumes "iterations ops (fst (IDAstar ops 1 s)) (Suc k) (1, snd (IDAstar ops 1 s)) \<noteq> None"
  shows "IDAstar_call ops s (Suc k) \<noteq> None"
proof -
  from assms obtain bs where it: "iterations ops (fst (IDAstar ops 1 s)) k (1, snd (IDAstar ops 1 s)) = Some bs"
    and g: "snd (fst (IDAstar ops 1 s)) \<noteq> fst bs"
    by (auto simp: iterations_Suc_last simp del: iterations.simps split: option.splits if_splits)
  then have "IDAstar_call ops s (Suc k) = Some (snd (fst (IDAstar ops 1 s)), resetStructure (snd bs))"
    by (simp add: Let_def)
  then show ?thesis by simp
qed

lemma IDAstar_call_continues:
  assumes "IDAstar_call ops s (Suc k) = Some (b, e)"
  shows "solve_loop ops (fst (IDAstar ops 1 s)) (1, snd (IDAstar ops 1 s))
    = solve_loop ops (fst (IDAstar ops 1 s)) (snd (fst (IDAstar ops b e)), snd (IDAstar ops b e))"
  using IDAstar_call_round [OF assms] by (rule solve_loop_iterations)

lemma IDAstar_call_first:
  assumes "IDAstar_call ops s 0 = Some (b, e)"
  shows "b = 1 \<and> e = s \<and>
    solve ops s =
      (case solve_loop ops (fst (IDAstar ops b e)) (b, snd (IDAstar ops b e)) of
         None \<Rightarrow> None
       | Some bs \<Rightarrow>
           (case reconstruct ops (fst (fst (IDAstar ops b e))) (snd bs) of
              None \<Rightarrow> None
            | Some s' \<Rightarrow>
                Some (rev (moves s'),
                      s'\<lparr>rubiksCube := fst (fst (IDAstar ops b e)), moves := rev (moves s')\<rparr>)))"
  using assms by (auto simp: solve_def Let_def split: option.splits)


lemma puzzles_invertible:
  "invert line_ops (move line_ops c i) i = c"
  "invert hop_ops (move hop_ops c i) i = c"
  "invert coin_ops (move coin_ops b i) i = b"
  by (simp_all add: line_ops_def hop_ops_def coin_ops_def)

section \<open>Claims about the solver\<close>

text \<open>
  C1 (not met by the code). The claim: for every solvable initial state the move sequence
  that \<open>solve\<close> returns leads from that state to a solved one. On the number line the state 2
  is solved by two moves (move 9 twice), yet \<open>solve\<close> returns the empty sequence and leaves
  the cube at 2: the first pass returns the next bound 2, the pass at bound 2 reaches the
  solved state and returns 2, the loop ends, and the path is rebuilt from \<open>p.first\<close>, which
  still is the root of the first pass (\<open>solve_unsolved_first_pass\<close> has the general fact).
\<close>

theorem solve_two_move_scramble_unsolved:
  "isSolved line_ops (foldl (move line_ops) 2 [9, 9])
   \<and> map_option fst (solve line_ops (IDAstarSolver no_heuristic 2)) = Some []
   \<and> \<not> isSolved line_ops (foldl (move line_ops) 2 [])
   \<and> map_option (\<lambda>r. rubiksCube (snd r)) (solve line_ops (IDAstarSolver no_heuristic 2)) = Some 2"
  by code_simp

text \<open>
  C2 (not met by the code). The claim: the root is seeded with the estimate of the heuristic
  provider and every successor's estimate comes from the provider. For every pattern
  database \<open>db\<close> and root \<open>c\<close> the queue is seeded with estimate 0; with the exact distance
  heuristic of the number line and root 2 (distance 2) the root and its eighteen successors
  (distances 3 and 1) all carry estimate 0, and the outcome of the pass is the one obtained
  with no heuristic.
\<close>

theorem IDAstar_estimate_constant:
  "pq (IDAstar_init (IDAstarSolver db c)) = [(\<lparr>cube = c, depth = 0, estimate = 0\<rparr>, 0)]
   \<and> line_distance 2 = 2
   \<and> map (\<lambda>p. (cube (fst p), estimate (fst p), cornerDB (IDAstarSolver line_distance 2) (cube (fst p))))
        (pq (expand line_ops 1 \<lparr>cube = 2, depth = 1, estimate = 0\<rparr> (IDAstar_init (IDAstarSolver line_distance 2))))
       = [(2, 0, 2), (3, 0, 3), (3, 0, 3), (3, 0, 3), (3, 0, 3), (3, 0, 3),
          (3, 0, 3), (3, 0, 3), (3, 0, 3), (3, 0, 3), (1, 0, 1), (1, 0, 1),
          (1, 0, 1), (1, 0, 1), (1, 0, 1), (1, 0, 1), (1, 0, 1), (1, 0, 1), (1, 0, 1)]
   \<and> fst (IDAstar line_ops 1 (IDAstarSolver line_distance 2)) = fst (IDAstar line_ops 1 (IDAstarSolver no_heuristic 2))"
proof -
  have "pq (IDAstar_init (IDAstarSolver db c)) = [(\<lparr>cube = c, depth = 0, estimate = 0\<rparr>, 0)]"
    by (simp add: IDAstar_init_simps IDAstarSolver_def)
  moreover have "line_distance 2 = 2" by (simp add: line_distance_def)
  moreover have "map (\<lambda>p. (cube (fst p), estimate (fst p), cornerDB (IDAstarSolver line_distance 2) (cube (fst p))))
        (pq (expand line_ops 1 \<lparr>cube = 2, depth = 1, estimate = 0\<rparr> (IDAstar_init (IDAstarSolver line_distance 2))))
       = [(2, 0, 2), (3, 0, 3), (3, 0, 3), (3, 0, 3), (3, 0, 3), (3, 0, 3),
          (3, 0, 3), (3, 0, 3), (3, 0, 3), (3, 0, 3), (1, 0, 1), (1, 0, 1),
          (1, 0, 1), (1, 0, 1), (1, 0, 1), (1, 0, 1), (1, 0, 1), (1, 0, 1), (1, 0, 1)]"
    by code_simp
  moreover have "fst (IDAstar line_ops 1 (IDAstarSolver line_distance 2)) = fst (IDAstar line_ops 1 (IDAstarSolver no_heuristic 2))"
    by code_simp
  ultimately show ?thesis by simp
qed

text \<open>
  C3 (as amended). When a bounded-expansion call ends without reaching a solved state, the
  next bound it returns is the smaller of 100, the initial value of \<open>next_bound\<close>, and the
  smallest cost \<open>depth + estimate\<close> among the candidates pruned for exceeding the bound. So
  it is the smallest pruned cost when some pruned cost is at most 100, and it is 100 when
  nothing was pruned or every pruned cost is above 100.
\<close>

theorem IDAstar_next_bound:
  "fst (IDAstar_run ops bound s) = None \<Longrightarrow>
     snd (fst (IDAstar ops bound s)) = Min (insert 100 (set (pruned (snd (IDAstar_run ops bound s)))))
     \<and> (\<forall>c\<in>set (pruned (snd (IDAstar_run ops bound s))). bound < c)
     \<and> ((\<exists>c\<in>set (pruned (snd (IDAstar_run ops bound s))). c \<le> 100) \<longrightarrow>
          least_pruned_cost (pruned (snd (IDAstar_run ops bound s))) (snd (fst (IDAstar ops bound s))))
     \<and> ((\<forall>c\<in>set (pruned (snd (IDAstar_run ops bound s))). 100 < c) \<longrightarrow>
          snd (fst (IDAstar ops bound s)) = 100)"
proof -
  assume none: "fst (IDAstar_run ops bound s) = None"
  define cs where "cs = pruned (snd (IDAstar_run ops bound s))"
  define b where "b = snd (fst (IDAstar ops bound s))"
  have "next_bound (snd (IDAstar_loop ops bound (IDAstar_init s)))
        = Min (insert 100 (set (pruned (snd (IDAstar_loop ops bound (IDAstar_init s))))))
      \<and> (\<forall>c\<in>set (pruned (snd (IDAstar_loop ops bound (IDAstar_init s)))). bound < c)"
    by (rule IDAstar_loop_next_bound) (simp_all add: IDAstar_init_simps)
  then have b: "b = Min (insert 100 (set cs))" and over: "\<forall>c\<in>set cs. bound < c"
    using IDAstar_unsolved [OF none] by (simp_all add: b_def cs_def IDAstar_run_def)
  have fin: "finite (insert 100 (set cs))" by simp
  have le: "b \<le> c" if "c \<in> set cs" for c
    unfolding b using fin that by (intro Min_le) simp_all
  have mem: "b \<in> insert 100 (set cs)"
    unfolding b by (rule Min_in) simp_all
  have low: "least_pruned_cost cs b" if "\<exists>c\<in>set cs. c \<le> 100"
  proof -
    from that obtain c where c: "c \<in> set cs" "c \<le> 100" by blast
    show ?thesis
    proof (cases "b = 100")
      case True
      with le [OF c(1)] c(2) have "c = b" by simp
      with c(1) le show ?thesis by (simp add: least_pruned_cost_def)
    next
      case False
      with mem le show ?thesis by (simp add: least_pruned_cost_def)
    qed
  qed
  have high: "b = 100" if "\<forall>c\<in>set cs. 100 < c"
  proof (rule ccontr)
    assume "b \<noteq> 100"
    with mem have "b \<in> set cs" by simp
    with that have "100 < b" by simp
    moreover have "b \<le> 100" unfolding b by (rule Min_le) simp_all
    ultimately show False by simp
  qed
  from b over low high show ?thesis unfolding b_def cs_def by blast
qed

theorem IDAstar_next_bound_witness:
  "fst (IDAstar_run line_ops 1 (IDAstarSolver no_heuristic 3)) = None
   \<and> snd (fst (IDAstar line_ops 1 (IDAstarSolver no_heuristic 3))) = 2
   \<and> least_pruned_cost (pruned (snd (IDAstar_run line_ops 1 (IDAstarSolver no_heuristic 3)))) 2"
proof -
  have none: "fst (IDAstar_run line_ops 1 (IDAstarSolver no_heuristic 3)) = None" by code_simp
  have two: "snd (fst (IDAstar line_ops 1 (IDAstarSolver no_heuristic 3))) = 2" by code_simp
  have some: "\<exists>c\<in>set (pruned (snd (IDAstar_run line_ops 1 (IDAstarSolver no_heuristic 3)))). c \<le> 100"
    by code_simp
  from IDAstar_next_bound [OF none] some two none show ?thesis by simp
qed

text \<open>
  The claim as stated, that the returned next bound always is the smallest pruned cost, fails
  on the coin: the pass at bound 1 expands both states, prunes nothing and returns 100.
\<close>

theorem IDAstar_next_bound_counterexample:
  "fst (IDAstar_run coin_ops 1 (IDAstarSolver no_heuristic False)) = None
   \<and> pruned (snd (IDAstar_run coin_ops 1 (IDAstarSolver no_heuristic False))) = []
   \<and> snd (fst (IDAstar coin_ops 1 (IDAstarSolver no_heuristic False))) = 100
   \<and> \<not> least_pruned_cost (pruned (snd (IDAstar_run coin_ops 1 (IDAstarSolver no_heuristic False))))
         (snd (fst (IDAstar coin_ops 1 (IDAstarSolver no_heuristic False))))"
proof -
  have none: "fst (IDAstar_run coin_ops 1 (IDAstarSolver no_heuristic False)) = None" by code_simp
  have nil: "pruned (snd (IDAstar_run coin_ops 1 (IDAstarSolver no_heuristic False))) = []" by code_simp
  have hundred: "snd (fst (IDAstar coin_ops 1 (IDAstarSolver no_heuristic False))) = 100" by code_simp
  from none nil hundred show ?thesis by (simp add: least_pruned_cost_def)
qed

text \<open>
  C4 (as amended). When a bounded-expansion call reaches a solved state, the integer of its
  outcome is the bound the call was given, as the comment \<^verbatim>\<open>returns {solved cube, bound}\<close>
  says; the cube of the outcome is the solved cube, and for a bound that is not negative the
  number of moves on the path to it is at most that integer.
\<close>

theorem IDAstar_solved_outcome:
  "fst (IDAstar_run ops bound s) = Some n \<Longrightarrow>
     fst (IDAstar ops bound s) = (cube n, bound) \<and> isSolved ops (cube n)
     \<and> (0 \<le> bound \<longrightarrow> depth n \<le> bound)"
  using IDAstar_solved [of ops bound s n] by simp

theorem IDAstar_solved_outcome_witness:
  "fst (IDAstar_run line_ops 2 (IDAstarSolver no_heuristic 1)) = Some \<lparr>cube = 0, depth = 1, estimate = 0\<rparr>
   \<and> fst (IDAstar line_ops 2 (IDAstarSolver no_heuristic 1)) = (0, 2)
   \<and> isSolved line_ops 0 \<and> (0::int) \<le> 2 \<and> depth \<lparr>cube = 0::int, depth = 1, estimate = 0\<rparr> \<le> 2"
proof -
  have f: "fst (IDAstar_run line_ops 2 (IDAstarSolver no_heuristic 1)) = Some \<lparr>cube = 0, depth = 1, estimate = 0\<rparr>"
    by code_simp
  from IDAstar_solved_outcome [OF f] f show ?thesis by simp
qed

text \<open>
  The claim as stated, that the integer is the path cost of the solved state, fails on a
  solved root: the path has no move and the call at bound 1 returns 1.
\<close>

theorem IDAstar_solved_outcome_counterexample:
  "map_option depth (fst (IDAstar_run line_ops 1 (IDAstarSolver no_heuristic 0))) = Some 0
   \<and> snd (fst (IDAstar line_ops 1 (IDAstarSolver no_heuristic 0))) = 1"
  by code_simp




text \<open>
  C6 (not met by the code). The claim: the bounds of successive iterations never decrease
  and the driver ends after finitely many iterations on every solvable input. The bounds
  handed to \<open>IDAstar\<close> indeed never decrease (\<open>call_bounds_nondecreasing\<close>), but on the number
  line the state 3, solved by three moves, makes the driver repeat the pass at bound 2 for
  ever: that pass returns 3, which is stored in \<open>bound\<close> and overwritten by \<open>p.second = 2\<close> at
  the next round.
\<close>

theorem solve_three_move_scramble_diverges:
  "isSolved line_ops (foldl (move line_ops) 3 [9, 9, 9])
   \<and> solve line_ops (IDAstarSolver no_heuristic 3) = None"
proof -
  have "isSolved line_ops (foldl (move line_ops) 3 [9, 9, 9])" by (simp add: line_ops_def)
  moreover have "solve line_ops (IDAstarSolver no_heuristic 3) = None"
  proof (rule solve_diverges [where b = 2])
    show "snd (fst (IDAstar line_ops 1 (IDAstarSolver no_heuristic 3))) = 2" by code_simp
    have "snd (fst (IDAstar line_ops 2 (IDAstarSolver no_heuristic 3))) = 3" by code_simp
    then show "snd (fst (IDAstar line_ops 2 (IDAstarSolver (cornerDB (IDAstarSolver no_heuristic 3))
        (rubiksCube (IDAstarSolver no_heuristic (3::int)))))) \<noteq> 2"
      by (simp add: IDAstarSolver_def)
  qed simp
  ultimately show ?thesis by simp
qed

text \<open>
  C7. \<open>compareCube pb pa\<close> holds exactly when the node of \<open>pa\<close> has the smaller cost
  \<open>depth + estimate\<close>, or the costs are equal and it has the smaller estimate; a priority
  queue serves \<open>pa\<close> before \<open>pb\<close> then. The element removed from a frontier that is not empty
  is one of its elements, has the least cost, has the least estimate among the elements of
  that cost, and the other elements stay.
\<close>

theorem frontier_order:
  "(compareCube pb pa \<longleftrightarrow>
      cost (fst pa) < cost (fst pb) \<or> (cost (fst pa) = cost (fst pb) \<and> estimate (fst pa) < estimate (fst pb)))
   \<and> (q \<noteq> [] \<longrightarrow>
        pq_top q \<in> set q
        \<and> (\<forall>x\<in>set q. cost (fst (pq_top q)) \<le> cost (fst x)
              \<and> (cost (fst x) = cost (fst (pq_top q)) \<longrightarrow> estimate (fst (pq_top q)) \<le> estimate (fst x)))
        \<and> (\<exists>xs ys. q = xs @ pq_top q # ys \<and> pq_pop q = xs @ ys))"
proof (intro conjI impI ballI)
  show "compareCube pb pa \<longleftrightarrow>
      cost (fst pa) < cost (fst pb) \<or> (cost (fst pa) = cost (fst pb) \<and> estimate (fst pa) < estimate (fst pb))"
    by (rule compareCube_iff)
next
  assume "q \<noteq> []"
  then show "pq_top q \<in> set q" by (rule pq_top_mem)
next
  fix x assume "q \<noteq> []" "x \<in> set q"
  then have "\<not> compareCube (pq_top q) x" by (rule pq_top_best)
  then show "cost (fst (pq_top q)) \<le> cost (fst x)" by (auto simp: compareCube_iff)
next
  fix x assume "q \<noteq> []" "x \<in> set q" and eq: "cost (fst x) = cost (fst (pq_top q))"
  then have "\<not> compareCube (pq_top q) x" by (simp add: pq_top_best)
  with eq show "estimate (fst (pq_top q)) \<le> estimate (fst x)" by (auto simp: compareCube_iff)
next
  assume "q \<noteq> []"
  then show "\<exists>xs ys. q = xs @ pq_top q # ys \<and> pq_pop q = xs @ ys" by (rule pq_pop_split)
qed

theorem frontier_order_witness:
  "sample_frontier \<noteq> []
   \<and> pq_top sample_frontier = (\<lparr>cube = 7, depth = 2, estimate = 0\<rparr>, 2)
   \<and> pq_top sample_frontier \<in> set sample_frontier
   \<and> pq_pop sample_frontier = [(\<lparr>cube = 5, depth = 2, estimate = 1\<rparr>, 0), (\<lparr>cube = 6, depth = 1, estimate = 1\<rparr>, 1)]
   \<and> compareCube (\<lparr>cube = 6, depth = 1, estimate = 1\<rparr>, 1) (\<lparr>cube = 7, depth = 2, estimate = 0\<rparr>, 2)"
  using frontier_order [of "(\<lparr>cube = 6, depth = 1, estimate = 1\<rparr>, 1)" "(\<lparr>cube = 7, depth = 2, estimate = 0\<rparr>, 2)" sample_frontier]
  by (simp add: sample_frontier_def pq_top_def pq_pop_def compareCube_def cost_def)

text \<open>
  C8 (as amended). Within one bounded-expansion call every state is expanded at most once.
  \<open>visited\<close> and \<open>move_done\<close> are empty at the start of every bounded-expansion call of a
  \<open>solve\<close> invoked on a freshly constructed solver, and at the start of every call after the
  first of any \<open>solve\<close>: \<open>resetStructure\<close> runs before each of those, and nothing is carried
  from one iteration into the next. The calls spoken of are those of the driver: the state
  of the loop after a round is the outcome of \<open>IDAstar\<close> on the entry of that round, the
  loop continues from it, every round of the loop has an entry, and \<open>solve\<close> itself is what
  follows from the outcome of entry 0.
\<close>

theorem expanded_once_fresh_structures:
  "distinct (expanded (snd (IDAstar_run ops bound s)))
   \<and> (IDAstar_call ops (IDAstarSolver db c0) k = Some (b, e) \<longrightarrow>
        visited e = Map.empty \<and> move_done e = Map.empty)
   \<and> (IDAstar_call ops s (Suc j) = Some (b', e') \<longrightarrow>
        visited e' = Map.empty \<and> move_done e' = Map.empty
        \<and> iterations ops (fst (IDAstar ops 1 s)) (Suc j) (1, snd (IDAstar ops 1 s))
            = Some (snd (fst (IDAstar ops b' e')), snd (IDAstar ops b' e'))
        \<and> solve_loop ops (fst (IDAstar ops 1 s)) (1, snd (IDAstar ops 1 s))
            = solve_loop ops (fst (IDAstar ops 1 s)) (snd (fst (IDAstar ops b' e')), snd (IDAstar ops b' e')))
   \<and> (iterations ops (fst (IDAstar ops 1 s)) (Suc j) (1, snd (IDAstar ops 1 s)) \<noteq> None \<longrightarrow>
        IDAstar_call ops s (Suc j) \<noteq> None)
   \<and> (IDAstar_call ops s 0 = Some (b0, e0) \<longrightarrow>
        b0 = 1 \<and> e0 = s \<and>
        solve ops s =
          (case solve_loop ops (fst (IDAstar ops b0 e0)) (b0, snd (IDAstar ops b0 e0)) of
             None \<Rightarrow> None
           | Some bs \<Rightarrow>
               (case reconstruct ops (fst (fst (IDAstar ops b0 e0))) (snd bs) of
                  None \<Rightarrow> None
                | Some s' \<Rightarrow>
                    Some (rev (moves s'),
                          s'\<lparr>rubiksCube := fst (fst (IDAstar ops b0 e0)), moves := rev (moves s')\<rparr>))))"
proof -
  have "distinct (expanded (snd (IDAstar_loop ops bound (IDAstar_init s))))
    \<and> (\<forall>c\<in>set (expanded (snd (IDAstar_loop ops bound (IDAstar_init s)))).
          visited (snd (IDAstar_loop ops bound (IDAstar_init s))) c = Some True)"
    by (rule IDAstar_loop_expanded) (simp_all add: IDAstar_init_simps)
  then have once: "distinct (expanded (snd (IDAstar_run ops bound s)))"
    by (simp add: IDAstar_run_def)
  have fresh: "visited e = Map.empty \<and> move_done e = Map.empty"
    if call: "IDAstar_call ops (IDAstarSolver db c0) k = Some (b, e)"
  proof (cases k)
    case 0
    with call show ?thesis by (auto simp: IDAstarSolver_def)
  next
    case (Suc i)
    with call show ?thesis using IDAstar_call_reset by blast
  qed
  have later: "visited e' = Map.empty \<and> move_done e' = Map.empty
        \<and> iterations ops (fst (IDAstar ops 1 s)) (Suc j) (1, snd (IDAstar ops 1 s))
            = Some (snd (fst (IDAstar ops b' e')), snd (IDAstar ops b' e'))
        \<and> solve_loop ops (fst (IDAstar ops 1 s)) (1, snd (IDAstar ops 1 s))
            = solve_loop ops (fst (IDAstar ops 1 s)) (snd (fst (IDAstar ops b' e')), snd (IDAstar ops b' e'))"
    if call: "IDAstar_call ops s (Suc j) = Some (b', e')"
    using IDAstar_call_reset [OF call] IDAstar_call_round [OF call] IDAstar_call_continues [OF call]
    by (intro conjI) simp_all
  from once fresh later IDAstar_call_complete [of ops s j] IDAstar_call_first [of ops s b0 e0]
  show ?thesis by (intro conjI impI) blast+
qed

theorem expanded_once_fresh_structures_witness:
  "distinct (expanded (snd (IDAstar_run line_ops 2 (IDAstarSolver no_heuristic 3))))
   \<and> length (expanded (snd (IDAstar_run line_ops 2 (IDAstarSolver no_heuristic 3)))) = 5
   \<and> IDAstar_call line_ops (IDAstarSolver no_heuristic 3) 0 = Some (1, IDAstarSolver no_heuristic 3)
   \<and> IDAstar_call line_ops (IDAstarSolver no_heuristic 3) 1 = Some (2, IDAstarSolver no_heuristic 3)
   \<and> visited (IDAstarSolver no_heuristic (3::int)) = Map.empty
   \<and> move_done (IDAstarSolver no_heuristic (3::int)) = Map.empty
   \<and> map_option fst (iterations line_ops (fst (IDAstar line_ops 1 (IDAstarSolver no_heuristic 3))) 1
        (1, snd (IDAstar line_ops 1 (IDAstarSolver no_heuristic 3)))) = Some 3"
proof -
  have len: "length (expanded (snd (IDAstar_run line_ops 2 (IDAstarSolver no_heuristic 3)))) = 5"
    by code_simp
  have two: "snd (fst (IDAstar line_ops 1 (IDAstarSolver no_heuristic 3))) = 2" by code_simp
  have three: "snd (fst (IDAstar line_ops 2 (IDAstarSolver no_heuristic 3))) = 3" by code_simp
  have first: "IDAstar_call line_ops (IDAstarSolver no_heuristic 3) 0 = Some (1, IDAstarSolver no_heuristic 3)"
    by simp
  have call: "IDAstar_call line_ops (IDAstarSolver no_heuristic 3) 1 = Some (2, IDAstarSolver no_heuristic 3)"
    using two by (simp add: Let_def resetStructure_fresh IDAstar_fields) (simp add: IDAstarSolver_def)
  then have round: "iterations line_ops (fst (IDAstar line_ops 1 (IDAstarSolver no_heuristic 3))) (Suc 0)
      (1, snd (IDAstar line_ops 1 (IDAstarSolver no_heuristic 3))) \<noteq> None"
    using two by simp
  from expanded_once_fresh_structures
    [where ops = line_ops and bound = 2 and s = "IDAstarSolver no_heuristic 3" and db = no_heuristic
       and ?c0.0 = 3 and k = 1 and b = 2 and e = "IDAstarSolver no_heuristic 3"
       and j = 0 and b' = 2 and e' = "IDAstarSolver no_heuristic 3"
       and ?b0.0 = 1 and ?e0.0 = "IDAstarSolver no_heuristic 3"] call
  have "distinct (expanded (snd (IDAstar_run line_ops 2 (IDAstarSolver no_heuristic 3))))"
    and "visited (IDAstarSolver no_heuristic (3::int)) = Map.empty"
    and "move_done (IDAstarSolver no_heuristic (3::int)) = Map.empty"
    and "iterations line_ops (fst (IDAstar line_ops 1 (IDAstarSolver no_heuristic 3))) (Suc 0)
          (1, snd (IDAstar line_ops 1 (IDAstarSolver no_heuristic 3)))
        = Some (snd (fst (IDAstar line_ops 2 (IDAstarSolver no_heuristic 3))),
                snd (IDAstar line_ops 2 (IDAstarSolver no_heuristic 3)))"
    by simp_all
  with len first call three show ?thesis by simp
qed

text \<open>
  The claim as stated, for every call of every \<open>solve\<close>, fails when \<open>solve\<close> is invoked a second
  time on the same solver: \<open>resetStructure\<close> does not run before the first call, which starts
  with the entries the first invocation left. After \<open>solve\<close> on the number line from 1 (one
  move, cube left at 0) the solved cube 0 is marked visited; the first pass of a second
  \<open>solve\<close> therefore skips its own root and returns 100, where a fresh solver on the same
  cube returns 1.
\<close>

theorem stale_structures_counterexample:
  "map_option (\<lambda>r. length (fst r)) (solve line_ops (IDAstarSolver no_heuristic 1)) = Some 1
   \<and> map_option fst (IDAstar_call line_ops (snd (the (solve line_ops (IDAstarSolver no_heuristic 1)))) 0) = Some 1
   \<and> visited (snd (the (IDAstar_call line_ops (snd (the (solve line_ops (IDAstarSolver no_heuristic 1)))) 0))) 0
       = Some True
   \<and> rubiksCube (snd (the (solve line_ops (IDAstarSolver no_heuristic 1)))) = 0
   \<and> fst (IDAstar line_ops 1 (snd (the (solve line_ops (IDAstarSolver no_heuristic 1))))) = (0, 100)
   \<and> fst (IDAstar line_ops 1 (IDAstarSolver no_heuristic 0)) = (0, 1)"
  by code_simp

end
